theory Spec2Isabelle
  imports Main "HOL-Library.Sublist" "HOL-Library.AList"
begin

section \<open>Text primitives of the Python runtime\<close>

text \<open>
  Python text is modelled as \<^typ>\<open>string\<close>; a character stands for the code point of the
  same number, so the model covers text in the range U+0000 .. U+00FF.

  \<open>is_space\<close> is the white-space class shared by \<^verbatim>\<open>str.strip()\<close> and by \<^verbatim>\<open>\s\<close> in a
  \<^verbatim>\<open>str\<close> pattern: in this range the code points 9-13, 28-32, 133 and 160.
\<close>

definition is_space :: "char \<Rightarrow> bool" where
  "is_space c \<longleftrightarrow> (of_char c :: nat) \<in> set [9, 10, 11, 12, 13, 28, 29, 30, 31, 32, 133, 160]"

text \<open>\<^verbatim>\<open>s.strip()\<close>: white space removed at both ends.\<close>

definition strip :: "string \<Rightarrow> string" where
  "strip s = rev (dropWhile is_space (rev (dropWhile is_space s)))"

section \<open>Code extraction (\<^verbatim>\<open>agent.py\<close>, lines 99-104)\<close>

text \<open>
  \<^verbatim>\<open>re.search(r"```(python\s*)?([\s\S]+)```", text, re.MULTILINE)\<close>.
  The pattern has no anchors, so the flag changes nothing. The model follows the
  backtracking matcher: the start positions from left to right; at a start the opening
  fence; then group 1, tried first with \<^verbatim>\<open>python\<close> and as much white space as there is,
  then with less white space, last without the group; then group 2, at least one
  character and as many as possible, followed by the closing fence. The result is the
  text of group 2 of the first match found.
\<close>

definition fence :: string where
  "fence = ''```''"

text \<open>The longest \<open>g\<close> (possibly empty) with \<open>s = g @ fence @ rest\<close>.\<close>

fun upto_last_fence :: "string \<Rightarrow> string option" where
  "upto_last_fence [] = None"
| "upto_last_fence (c # cs) =
     (case upto_last_fence cs of
        Some g \<Rightarrow> Some (c # g)
      | None \<Rightarrow> if prefix fence (c # cs) then Some [] else None)"

text \<open>\<^verbatim>\<open>([\s\S]+)```\<close>: group 2 and the closing fence.\<close>

definition group2_then_fence :: "string \<Rightarrow> string option" where
  "group2_then_fence r =
     (case r of [] \<Rightarrow> None | c # cs \<Rightarrow> map_option ((#) c) (upto_last_fence cs))"

text \<open>\<^verbatim>\<open>\s*\<close> of group 1 with \<open>k\<close> characters, then \<open>k - 1\<close>, down to none.\<close>

fun spaces_then_rest :: "nat \<Rightarrow> string \<Rightarrow> string option" where
  "spaces_then_rest 0 r = group2_then_fence r"
| "spaces_then_rest (Suc k) r =
     (case group2_then_fence (drop (Suc k) r) of
        Some g \<Rightarrow> Some g
      | None \<Rightarrow> spaces_then_rest k r)"

definition match_at :: "string \<Rightarrow> string option" where
  "match_at s =
     (if prefix fence s then
        let r = drop (length fence) s;
            tagged =
              (if prefix ''python'' r
               then spaces_then_rest (length (takeWhile is_space (drop 6 r))) (drop 6 r)
               else None)
        in (case tagged of Some g \<Rightarrow> Some g | None \<Rightarrow> group2_then_fence r)
      else None)"

fun re_search :: "string \<Rightarrow> string option" where
  "re_search [] = None"
| "re_search (c # cs) =
     (case match_at (c # cs) of Some g \<Rightarrow> Some g | None \<Rightarrow> re_search cs)"

text \<open>
  \<^verbatim>\<open>
  code_to_execute = response.text
  match = re.search(...)
  if match: code_to_execute = match.group(2).strip()
  else:     code_to_execute = code_to_execute.strip()
  \<close>
\<close>

definition code_to_execute :: "string \<Rightarrow> string" where
  "code_to_execute response_text =
     (case re_search response_text of
        Some g \<Rightarrow> strip g
      | None \<Rightarrow> strip response_text)"

text \<open>A fenced block: an opening fence, at least one character, a closing fence.\<close>

definition has_fenced_block :: "string \<Rightarrow> bool" where
  "has_fenced_block s \<longleftrightarrow>
     (\<exists>pre mid post. s = pre @ fence @ mid @ fence @ post \<and> mid \<noteq> [])"


section \<open>The JSON codec of the standard library\<close>

text \<open>
  \<^verbatim>\<open>json.loads\<close> and \<^verbatim>\<open>json.dumps\<close> belong to the interpreter, not to the repository;
  they are modelled after the decoder's scanner and the encoder's default settings.
  A JSON string is a list of code points. Floating-point arithmetic is not modelled: a
  float is given by its text, so a literal with a fraction or an exponent, and the
  constants \<^verbatim>\<open>NaN\<close>, \<^verbatim>\<open>Infinity\<close>, \<^verbatim>\<open>-Infinity\<close>, are kept as their source text, which is
  also what \<open>json_dumps\<close> writes for them (\<^verbatim>\<open>float.__repr__\<close> gives a text that
  \<^verbatim>\<open>float\<close> reads back as the same number). The interpreter's limits on nesting depth and on the length of an integer literal, and the
  text of the decoder's error message, are not modelled either.
\<close>

type_synonym ustr = "nat list"

datatype json =
    JNull
  | JBool bool
  | JInt int
  | JFloat string
  | JStr ustr
  | JArr "json list"
  | JObj "(ustr \<times> json) list"

definition is_ws :: "char \<Rightarrow> bool" where
  "is_ws c \<longleftrightarrow> c = CHR '' '' \<or> c = CHR 0x09 \<or> c = CHR 0x0A \<or> c = CHR 0x0D"

definition skip_ws :: "string \<Rightarrow> string" where
  "skip_ws = dropWhile is_ws"

definition is_digit :: "char \<Rightarrow> bool" where
  "is_digit c \<longleftrightarrow> 48 \<le> (of_char c :: nat) \<and> (of_char c :: nat) \<le> 57"

definition digit_val :: "char \<Rightarrow> nat" where
  "digit_val c = of_char c - 48"

definition int_of_digits :: "string \<Rightarrow> nat" where
  "int_of_digits ds = foldl (\<lambda>a c. 10 * a + digit_val c) 0 ds"

definition hex_val :: "char \<Rightarrow> nat option" where
  "hex_val c =
     (let n = (of_char c :: nat) in
      if 48 \<le> n \<and> n \<le> 57 then Some (n - 48)
      else if 97 \<le> n \<and> n \<le> 102 then Some (n - 87)
      else if 65 \<le> n \<and> n \<le> 70 then Some (n - 55)
      else None)"

definition decode_uXXXX :: "string \<Rightarrow> nat option" where
  "decode_uXXXX s =
     (case map hex_val (take 4 s) of
        [Some a, Some b, Some c, Some d] \<Rightarrow> Some (((a * 16 + b) * 16 + c) * 16 + d)
      | _ \<Rightarrow> None)"

definition backslash :: "char \<Rightarrow> nat option" where
  "backslash e =
     (if e = CHR 0x22 then Some 0x22
      else if e = CHR 0x5C then Some 0x5C
      else if e = CHR ''/'' then Some 0x2F
      else if e = CHR ''b'' then Some 8
      else if e = CHR ''f'' then Some 12
      else if e = CHR ''n'' then Some 10
      else if e = CHR ''r'' then Some 13
      else if e = CHR ''t'' then Some 9
      else None)"

fun scanstring :: "string \<Rightarrow> (ustr \<times> string) option" where
  "scanstring [] = None"
| "scanstring (c # cs) =
     (if c = CHR 0x22 then Some ([], cs)
      else if c = CHR 0x5C then
        (case cs of
           [] \<Rightarrow> None
         | e # r \<Rightarrow>
             if e = CHR ''u'' then
               (case decode_uXXXX r of
                  None \<Rightarrow> None
                | Some uni \<Rightarrow>
                    (case (if 0xD800 \<le> uni \<and> uni \<le> 0xDBFF \<and> take 2 (drop 4 r) = [CHR 0x5C, CHR ''u'']
                           then decode_uXXXX (drop 6 r) else None) of
                       None \<Rightarrow>
                         if 0xD800 \<le> uni \<and> uni \<le> 0xDBFF \<and> take 2 (drop 4 r) = [CHR 0x5C, CHR ''u'']
                         then None
                         else map_option (\<lambda>(t, rest). (uni # t, rest)) (scanstring (drop 4 r))
                     | Some uni2 \<Rightarrow>
                         if 0xDC00 \<le> uni2 \<and> uni2 \<le> 0xDFFF
                         then map_option
                                (\<lambda>(t, rest). ((0x10000 + (uni - 0xD800) * 1024 + (uni2 - 0xDC00)) # t, rest))
                                (scanstring (drop 10 r))
                         else map_option (\<lambda>(t, rest). (uni # t, rest)) (scanstring (drop 4 r))))
             else
               (case backslash e of
                  None \<Rightarrow> None
                | Some cp \<Rightarrow> map_option (\<lambda>(t, rest). (cp # t, rest)) (scanstring r)))
      else if (of_char c :: nat) < 0x20 then None
      else map_option (\<lambda>(t, rest). (of_char c # t, rest)) (scanstring cs))"


text \<open>NUMBER_RE\<close>
definition match_number :: "string \<Rightarrow> (json \<times> string) option" where
  "match_number s =
     (let minus = (if s \<noteq> [] \<and> hd s = CHR ''-'' then ''-'' else []);
          s1 = drop (length minus) s
      in case s1 of
           [] \<Rightarrow> None
         | d # r \<Rightarrow>
             if \<not> is_digit d then None
             else
               let ds = (if d = CHR ''0'' then [d] else d # takeWhile is_digit r);
                   r1 = drop (length ds) s1;
                   fd = (case r1 of [] \<Rightarrow> [] | p # f \<Rightarrow> if p = CHR ''.'' then takeWhile is_digit f else []);
                   frac = (if fd = [] then [] else CHR ''.'' # fd);
                   r2 = drop (length frac) r1;
                   exp =
                     (case r2 of
                        [] \<Rightarrow> []
                      | e # x \<Rightarrow>
                          if e = CHR ''e'' \<or> e = CHR ''E'' then
                            let sign = (if x \<noteq> [] \<and> (hd x = CHR ''-'' \<or> hd x = CHR ''+'') then [hd x] else []);
                                xd = takeWhile is_digit (drop (length sign) x)
                            in if xd = [] then [] else e # sign @ xd
                          else []);
                   r3 = drop (length exp) r2
               in if frac = [] \<and> exp = []
                  then Some (JInt (if minus = [] then int (int_of_digits ds) else - int (int_of_digits ds)), r3)
                  else Some (JFloat (minus @ ds @ frac @ exp), r3))"

definition dict :: "(ustr \<times> json) list \<Rightarrow> (ustr \<times> json) list" where
  "dict pairs = foldl (\<lambda>d (k, v). AList.update k v d) [] pairs"

fun scan_once :: "nat \<Rightarrow> string \<Rightarrow> (json \<times> string) option"
  and JSONArray :: "nat \<Rightarrow> string \<Rightarrow> (json list \<times> string) option"
  and JSONObject :: "nat \<Rightarrow> string \<Rightarrow> ((ustr \<times> json) list \<times> string) option"
where
  "scan_once 0 s = None"
| "scan_once (Suc n) s =
     (case s of
        [] \<Rightarrow> None
      | c # cs \<Rightarrow>
          if c = CHR 0x22 then map_option (\<lambda>(t, r). (JStr t, r)) (scanstring cs)
          else if c = CHR ''{'' then
            (case skip_ws cs of
               [] \<Rightarrow> None
             | c' # r \<Rightarrow>
                 if c' = CHR ''}'' then Some (JObj [], r)
                 else map_option (\<lambda>(ps, r'). (JObj (dict ps), r')) (JSONObject n (c' # r)))
          else if c = CHR ''['' then
            (case skip_ws cs of
               [] \<Rightarrow> None
             | c' # r \<Rightarrow>
                 if c' = CHR '']'' then Some (JArr [], r)
                 else map_option (\<lambda>(vs, r'). (JArr vs, r')) (JSONArray n (c' # r)))
          else if prefix ''null'' s then Some (JNull, drop 4 s)
          else if prefix ''true'' s then Some (JBool True, drop 4 s)
          else if prefix ''false'' s then Some (JBool False, drop 5 s)
          else
            (case match_number s of
               Some m \<Rightarrow> Some m
             | None \<Rightarrow>
                 if prefix ''NaN'' s then Some (JFloat ''NaN'', drop 3 s)
                 else if prefix ''Infinity'' s then Some (JFloat ''Infinity'', drop 8 s)
                 else if prefix ''-Infinity'' s then Some (JFloat ''-Infinity'', drop 9 s)
                 else None))"
| "JSONArray 0 s = None"
| "JSONArray (Suc n) s =
     (case scan_once n s of
        None \<Rightarrow> None
      | Some (v, r) \<Rightarrow>
          (case skip_ws r of
             [] \<Rightarrow> None
           | c # r' \<Rightarrow>
               if c = CHR '']'' then Some ([v], r')
               else if c = CHR '','' then
                 map_option (\<lambda>(vs, r''). (v # vs, r'')) (JSONArray n (skip_ws r'))
               else None))"
| "JSONObject 0 s = None"
| "JSONObject (Suc n) s =
     (case s of
        [] \<Rightarrow> None
      | q # r \<Rightarrow>
          if q \<noteq> CHR 0x22 then None
          else
            (case scanstring r of
               None \<Rightarrow> None
             | Some (key, r1) \<Rightarrow>
                 (case skip_ws r1 of
                    [] \<Rightarrow> None
                  | c # r2 \<Rightarrow>
                      if c \<noteq> CHR '':'' then None
                      else
                        (case scan_once n (skip_ws r2) of
                           None \<Rightarrow> None
                         | Some (v, r3) \<Rightarrow>
                             (case skip_ws r3 of
                                [] \<Rightarrow> None
                              | c' # r4 \<Rightarrow>
                                  if c' = CHR ''}'' then Some ([(key, v)], r4)
                                  else if c' = CHR '','' then
                                    map_option (\<lambda>(ps, r'). ((key, v) # ps, r'))
                                      (JSONObject n (skip_ws r4))
                                  else None)))))"

definition json_loads_opt :: "string \<Rightarrow> json option" where
  "json_loads_opt s =
     (case scan_once (2 * length s + 2) (skip_ws s) of
        None \<Rightarrow> None
      | Some (v, r) \<Rightarrow> if skip_ws r = [] then Some v else None)"

definition digit_char :: "nat \<Rightarrow> char" where
  "digit_char d = char_of (48 + d)"

fun digits_of :: "nat \<Rightarrow> string" where
  "digits_of n = (if n < 10 then [digit_char n] else digits_of (n div 10) @ [digit_char (n mod 10)])"

declare digits_of.simps [simp del]

definition int_repr :: "int \<Rightarrow> string" where
  "int_repr i = (if i < 0 then ''-'' @ digits_of (nat (- i)) else digits_of (nat i))"

definition hex_char :: "nat \<Rightarrow> char" where
  "hex_char d = (if d < 10 then char_of (48 + d) else char_of (87 + d))"

definition hex4 :: "nat \<Rightarrow> string" where
  "hex4 n = [hex_char (n div 4096 mod 16), hex_char (n div 256 mod 16),
             hex_char (n div 16 mod 16), hex_char (n mod 16)]"

definition escape_cp :: "nat \<Rightarrow> string" where
  "escape_cp n =
     (if n = 0x5C then [CHR 0x5C, CHR 0x5C]
      else if n = 0x22 then [CHR 0x5C, CHR 0x22]
      else if n = 8 then [CHR 0x5C, CHR ''b'']
      else if n = 12 then [CHR 0x5C, CHR ''f'']
      else if n = 10 then [CHR 0x5C, CHR ''n'']
      else if n = 13 then [CHR 0x5C, CHR ''r'']
      else if n = 9 then [CHR 0x5C, CHR ''t'']
      else if 0x20 \<le> n \<and> n \<le> 0x7E then [char_of n]
      else if n < 0x10000 then [CHR 0x5C, CHR ''u''] @ hex4 n
      else
        let v = n - 0x10000;
            s1 = 0xD800 + (v div 1024) mod 1024;
            s2 = 0xDC00 + v mod 1024
        in [CHR 0x5C, CHR ''u''] @ hex4 s1 @ [CHR 0x5C, CHR ''u''] @ hex4 s2)"

definition encode_basestring_ascii :: "ustr \<Rightarrow> string" where
  "encode_basestring_ascii s = [CHR 0x22] @ concat (map escape_cp s) @ [CHR 0x22]"

fun str_join :: "string \<Rightarrow> string list \<Rightarrow> string" where
  "str_join sep [] = []"
| "str_join sep [x] = x"
| "str_join sep (x # y # ys) = x @ sep @ str_join sep (y # ys)"

fun json_dumps :: "json \<Rightarrow> string" where
  "json_dumps JNull = ''null''"
| "json_dumps (JBool b) = (if b then ''true'' else ''false'')"
| "json_dumps (JInt i) = int_repr i"
| "json_dumps (JFloat lexeme) = lexeme"
| "json_dumps (JStr s) = encode_basestring_ascii s"
| "json_dumps (JArr vs) = ''['' @ str_join '', '' (map json_dumps vs) @ '']''"
| "json_dumps (JObj ps) =
     ''{'' @ str_join '', '' (map (\<lambda>(k, v). encode_basestring_ascii k @ '': '' @ json_dumps v) ps) @ ''}''"

text \<open>
  The values for which \<open>json_dumps\<close> and \<open>json_loads\<close> are shown to be inverse: floats
  whose text is a JSON number with a fraction or an exponent, as \<^verbatim>\<open>float.__repr__\<close> writes
  a finite float, or one of \<^verbatim>\<open>Infinity\<close> and \<^verbatim>\<open>-Infinity\<close> (not \<^verbatim>\<open>NaN\<close>, which in Python is
  not equal to itself), strings made of Unicode scalar values (no surrogate code
  points), objects with distinct keys, as a Python \<^verbatim>\<open>dict\<close> with string keys has them.
\<close>

definition scalar :: "nat \<Rightarrow> bool" where
  "scalar n \<longleftrightarrow> n < 0x110000 \<and> \<not> (0xD800 \<le> n \<and> n \<le> 0xDFFF)"

fun json_ok :: "json \<Rightarrow> bool" where
  "json_ok JNull = True"
| "json_ok (JBool b) = True"
| "json_ok (JInt i) = True"
| "json_ok (JFloat lexeme) =
     (match_number lexeme = Some (JFloat lexeme, [])
      \<or> lexeme = ''Infinity'' \<or> lexeme = ''-Infinity'')"
| "json_ok (JStr s) = list_all scalar s"
| "json_ok (JArr vs) = list_all json_ok vs"
| "json_ok (JObj ps) =
     (distinct (map fst ps) \<and> list_all (\<lambda>(k, v). list_all scalar k \<and> json_ok v) ps)"

text \<open>
  Devices of the proof that decoding inverts encoding: the fuel that suffices for a value,
  the characters that may follow a value in an encoded text, the characters an encoded
  value may start with, and the statement proved by induction on the value.
\<close>

fun need :: "json \<Rightarrow> nat" where
  "need JNull = 1"
| "need (JBool b) = 1"
| "need (JInt i) = 1"
| "need (JFloat lexeme) = 1"
| "need (JStr s) = 1"
| "need (JArr vs) = Suc (length vs + sum_list (map need vs))"
| "need (JObj ps) = Suc (length ps + sum_list (map (\<lambda>(k, v). need v) ps))"

definition delim :: "string \<Rightarrow> bool" where
  "delim rest \<longleftrightarrow> (case rest of [] \<Rightarrow> True | c # _ \<Rightarrow> c = CHR '','' \<or> c = CHR '']'' \<or> c = CHR ''}'')"

definition starts_value :: "char \<Rightarrow> bool" where
  "starts_value c \<longleftrightarrow> \<not> is_ws c \<and> \<not> is_space c \<and> c \<noteq> CHR '']'' \<and> c \<noteq> CHR ''}''"

definition scans :: "json \<Rightarrow> bool" where
  "scans v \<longleftrightarrow> (\<forall>n rest. need v \<le> n \<longrightarrow> delim rest \<longrightarrow>
                    scan_once n (json_dumps v @ rest) = Some (v, rest))"


section \<open>Exceptions\<close>

text \<open>
  The classes of the exceptions that the two source files raise, catch or let through.
  A constructor stands for the class and the classes derived from it that have no
  constructor of their own; \<open>OtherException\<close> is any other class derived from
  \<^verbatim>\<open>Exception\<close>, by name, and \<open>OtherBaseException\<close> any other class derived from
  \<^verbatim>\<open>BaseException\<close> and not from \<^verbatim>\<open>Exception\<close> (\<^verbatim>\<open>GeneratorExit\<close>, or one a script defines).
\<close>

datatype exc_class =
    Exception
  | ValueError
  | JSONDecodeError
  | UnicodeDecodeError
  | AttributeError
  | FileExistsError
  | FileNotFoundError
  | NotADirectoryError
  | IsADirectoryError
  | RetryError
  | DeadlineExceeded
  | OtherException string
  | SystemExit
  | KeyboardInterrupt
  | OtherBaseException string

text \<open>An exception object: its class and \<^verbatim>\<open>str(e)\<close>.\<close>

datatype py_exc = Exc (cls: exc_class) (msg: string)

text \<open>
  \<^verbatim>\<open>isinstance(e, Exception)\<close>, which is what \<^verbatim>\<open>except Exception\<close> tests:
  \<^verbatim>\<open>SystemExit\<close>, \<^verbatim>\<open>KeyboardInterrupt\<close> and \<^verbatim>\<open>GeneratorExit\<close> derive from \<^verbatim>\<open>BaseException\<close>
  only.
\<close>

fun is_Exception :: "exc_class \<Rightarrow> bool" where
  "is_Exception SystemExit = False"
| "is_Exception KeyboardInterrupt = False"
| "is_Exception (OtherBaseException _) = False"
| "is_Exception _ = True"

text \<open>\<^verbatim>\<open>except (google_exceptions.RetryError, google_exceptions.DeadlineExceeded)\<close>\<close>

fun is_timeout :: "exc_class \<Rightarrow> bool" where
  "is_timeout RetryError = True"
| "is_timeout DeadlineExceeded = True"
| "is_timeout _ = False"

definition json_loads :: "string \<Rightarrow> py_exc + json" where
  "json_loads s =
     (case json_loads_opt s of
        None \<Rightarrow> Inl (Exc JSONDecodeError [])
      | Some v \<Rightarrow> Inr v)"

section \<open>The process: working directory, file system, standard streams\<close>

text \<open>
  The part of the process and of the host that the two source files read and write.
  Paths are POSIX path strings and are compared as text (\<^verbatim>\<open>.\<close> and \<^verbatim>\<open>..\<close> are not
  resolved); the file system maps an absolute path to its node. A stream object is
  either an \<^verbatim>\<open>io.StringIO\<close>, which has \<^verbatim>\<open>getvalue()\<close>, or a text file object such as the
  console or an opened file, which has not; \<open>stream\<close> holds the text written to each,
  \<open>closed\<close> tells which of them have been closed, and \<open>sys_stdout\<close>, \<open>sys_stderr\<close> are
  the objects \<^verbatim>\<open>sys.stdout\<close> and \<^verbatim>\<open>sys.stderr\<close> are bound to. Console logging
  (\<^verbatim>\<open>print\<close> and \<^verbatim>\<open>traceback.print_exc()\<close> in \<^verbatim>\<open>run\<close> and in the handler)
  is left out: it is taken to succeed, as it does on the open streams of the process,
  and then it appends to them and decides nothing.
\<close>

datatype node = Dir | File string

datatype py_stream = StringIO nat | TextIO nat

record proc =
  cwd :: string
  files :: "string \<Rightarrow> node option"
  sys_stdout :: py_stream
  sys_stderr :: py_stream
  stream :: "py_stream \<Rightarrow> string"
  closed :: "py_stream \<Rightarrow> bool"
  next_obj :: nat

text \<open>\<^verbatim>\<open>os.path.join(a, b)\<close> and \<^verbatim>\<open>os.path.basename(p)\<close> (posixpath).\<close>

definition os_path_join :: "string \<Rightarrow> string \<Rightarrow> string" where
  "os_path_join a b =
     (if b \<noteq> [] \<and> hd b = CHR ''/'' then b
      else if a = [] \<or> last a = CHR ''/'' then a @ b
      else a @ ''/'' @ b)"

definition os_path_basename :: "string \<Rightarrow> string" where
  "os_path_basename p = rev (takeWhile (\<lambda>c. c \<noteq> CHR ''/'') (rev p))"

text \<open>The absolute path a path string denotes in the current working directory.\<close>

definition abspath :: "proc \<Rightarrow> string \<Rightarrow> string" where
  "abspath s p = os_path_join (cwd s) p"

definition py_repr :: "string \<Rightarrow> string" where
  "py_repr p = [CHR 0x27] @ p @ [CHR 0x27]"

definition os_path_exists :: "string \<Rightarrow> proc \<Rightarrow> bool" where
  "os_path_exists p s \<longleftrightarrow> files s (abspath s p) \<noteq> None"

definition os_chdir :: "string \<Rightarrow> proc \<Rightarrow> py_exc + proc" where
  "os_chdir p s =
     (case files s (abspath s p) of
        Some Dir \<Rightarrow> Inr (s\<lparr>cwd := abspath s p\<rparr>)
      | Some (File _) \<Rightarrow> Inl (Exc NotADirectoryError (''[Errno 20] Not a directory: '' @ py_repr p))
      | None \<Rightarrow> Inl (Exc FileNotFoundError (''[Errno 2] No such file or directory: '' @ py_repr p)))"

definition is_file :: "node option \<Rightarrow> bool" where
  "is_file n = (case n of Some (File _) \<Rightarrow> True | _ \<Rightarrow> False)"

text \<open>The directories above an absolute path: its prefixes that end before a \<^verbatim>\<open>/\<close>.\<close>

definition ancestors :: "string \<Rightarrow> string list" where
  "ancestors a = map (\<lambda>i. take i a) (filter (\<lambda>i. a ! i = CHR ''/'') [1..<length a])"

text \<open>\<^verbatim>\<open>os.makedirs(p)\<close>: the directory and the missing ones above it; the leaf must be new.\<close>

definition os_makedirs :: "string \<Rightarrow> proc \<Rightarrow> py_exc + proc" where
  "os_makedirs p s =
     (let a = abspath s p in
      if files s a \<noteq> None
      then Inl (Exc FileExistsError (''[Errno 17] File exists: '' @ py_repr p))
      else if list_ex (\<lambda>q. is_file (files s q)) (ancestors a)
      then Inl (Exc NotADirectoryError (''[Errno 20] Not a directory: '' @ py_repr p))
      else Inr (s\<lparr>files :=
                  (\<lambda>q. if q = a \<or> (q \<in> set (ancestors a) \<and> files s q = None)
                       then Some Dir else files s q)\<rparr>))"

text \<open>\<^verbatim>\<open>shutil.rmtree(p)\<close>: the directory and every path under it.\<close>

definition shutil_rmtree :: "string \<Rightarrow> proc \<Rightarrow> py_exc + proc" where
  "shutil_rmtree p s =
     (let a = abspath s p in
      case files s a of
        Some Dir \<Rightarrow>
          Inr (s\<lparr>files := (\<lambda>q. if q = a \<or> prefix (a @ ''/'') q then None else files s q)\<rparr>)
      | Some (File _) \<Rightarrow> Inl (Exc NotADirectoryError (''[Errno 20] Not a directory: '' @ py_repr p))
      | None \<Rightarrow> Inl (Exc FileNotFoundError (''[Errno 2] No such file or directory: '' @ py_repr p)))"

text \<open>
  Writing a file at a path. On a directory the write fails; here that is a write that
  changes nothing (the writer sees the error).
\<close>

definition write_file :: "string \<Rightarrow> string \<Rightarrow> proc \<Rightarrow> proc" where
  "write_file p content s =
     (if files s (abspath s p) = Some Dir then s
      else s\<lparr>files := (files s)(abspath s p \<mapsto> File content)\<rparr>)"

definition stream_write :: "py_stream \<Rightarrow> string \<Rightarrow> proc \<Rightarrow> proc" where
  "stream_write obj txt s = s\<lparr>stream := (stream s)(obj := stream s obj @ txt)\<rparr>"

definition close_stream :: "py_stream \<Rightarrow> proc \<Rightarrow> proc" where
  "close_stream obj s = s\<lparr>closed := (closed s)(obj := True)\<rparr>"

text \<open>The text of the \<^verbatim>\<open>ValueError\<close> that a closed stream object raises.\<close>

definition closed_file_msg :: "py_stream \<Rightarrow> string" where
  "closed_file_msg obj =
     (case obj of
        StringIO _ \<Rightarrow> ''I/O operation on closed file''
      | TextIO _ \<Rightarrow> ''I/O operation on closed file.'')"

text \<open>\<^verbatim>\<open>obj.write(txt)\<close>: a closed object raises \<^verbatim>\<open>ValueError\<close>.\<close>

definition sys_write :: "py_stream \<Rightarrow> string \<Rightarrow> proc \<Rightarrow> py_exc + proc" where
  "sys_write obj txt s =
     (if closed s obj then Inl (Exc ValueError (closed_file_msg obj))
      else Inr (stream_write obj txt s))"

text \<open>
  \<^verbatim>\<open>obj.getvalue()\<close>: only an \<^verbatim>\<open>io.StringIO\<close> has the method, and on a closed one it raises
  \<^verbatim>\<open>ValueError\<close>.
\<close>

definition getvalue :: "py_stream \<Rightarrow> proc \<Rightarrow> py_exc + string" where
  "getvalue obj s =
     (case obj of
        StringIO _ \<Rightarrow>
          if closed s obj then Inl (Exc ValueError (closed_file_msg obj))
          else Inr (stream s obj)
      | TextIO _ \<Rightarrow>
          Inl (Exc AttributeError
                 ([CHR 0x27] @ ''_io.TextIOWrapper'' @ [CHR 0x27] @ '' object has no attribute ''
                  @ [CHR 0x27] @ ''getvalue'' @ [CHR 0x27])))"

section \<open>The generation service and the generated script\<close>

text \<open>
  The reply of \<^verbatim>\<open>model.generate_content\<close>: the candidates, \<^verbatim>\<open>response.text\<close> and
  \<^verbatim>\<open>response.prompt_feedback\<close>.
\<close>

record response =
  candidates :: "string list"
  resp_text :: string
  prompt_feedback :: string

text \<open>
  What one run of a script under \<^verbatim>\<open>exec\<close> does, as far as the callers can see: the text
  it writes to the objects \<^verbatim>\<open>sys.stdout\<close> and \<^verbatim>\<open>sys.stderr\<close> are bound to when it starts,
  the files it writes (path and content, relative paths taken in the working directory
  of the run), a change of working directory, whether it closes the objects
  \<^verbatim>\<open>sys.stdout\<close> and \<^verbatim>\<open>sys.stderr\<close> are bound to when it starts (as in
  \<^verbatim>\<open>sys.stdout.close()\<close>), the objects it leaves \<^verbatim>\<open>sys.stdout\<close> and \<^verbatim>\<open>sys.stderr\<close> bound to
  when it assigns to them (as in \<^verbatim>\<open>sys.stdout = open(os.devnull, 'w')\<close>), and the
  exception it ends with, if any, together with the text \<^verbatim>\<open>traceback.format_exc()\<close> gives
  for it after the first line.
  A script is taken to end and to delete nothing; apart from closing them, it uses the
  two stream objects only by writing to them (it does not rewind or truncate them and
  does not replace their methods).
\<close>

record script_run =
  printed :: string
  warned :: string
  created :: "(string \<times> string) list"
  moved_to :: "string option"
  closes_stdout :: bool
  closes_stderr :: bool
  rebinds_stdout :: "py_stream option"
  rebinds_stderr :: "py_stream option"
  raised :: "py_exc option"
  tb_detail :: string

text \<open>
  The world outside the two source files: the generation service (prompt to reply, or
  the exception the call raises), the meaning of a script (in the process state it is
  started in) and UTF-8 decoding of a file's content.
\<close>

record world =
  generate_content :: "string \<Rightarrow> py_exc + response"
  exec_script :: "string \<Rightarrow> proc \<Rightarrow> script_run"
  utf8_decode :: "string \<Rightarrow> string option"

definition script_effects :: "script_run \<Rightarrow> proc \<Rightarrow> proc" where
  "script_effects r s =
     (let s1 = stream_write (sys_stdout s) (printed r) s;
          s2 = stream_write (sys_stderr s1) (warned r) s1;
          s3 = fold (\<lambda>(p, content). write_file p content) (created r) s2;
          s4 = (case moved_to r of
                  None \<Rightarrow> s3
                | Some d \<Rightarrow> (case os_chdir d s3 of Inr s' \<Rightarrow> s' | Inl _ \<Rightarrow> s3));
          s5 = (if closes_stdout r then close_stream (sys_stdout s) s4 else s4);
          s6 = (if closes_stderr r then close_stream (sys_stderr s) s5 else s5);
          s7 = (case rebinds_stdout r of None \<Rightarrow> s6 | Some obj \<Rightarrow> s6\<lparr>sys_stdout := obj\<rparr>)
      in case rebinds_stderr r of None \<Rightarrow> s7 | Some obj \<Rightarrow> s7\<lparr>sys_stderr := obj\<rparr>)"

text \<open>
  A run that leaves the two streams as it found them but for the text written: it does
  not assign to \<^verbatim>\<open>sys.stdout\<close> or \<^verbatim>\<open>sys.stderr\<close> and does not close the objects they are
  bound to.
\<close>

definition keeps_streams :: "script_run \<Rightarrow> bool" where
  "keeps_streams r \<longleftrightarrow>
     rebinds_stdout r = None \<and> rebinds_stderr r = None
     \<and> \<not> closes_stdout r \<and> \<not> closes_stderr r"

section \<open>\<^verbatim>\<open>execute_python_code\<close> (\<^verbatim>\<open>agent.py\<close>, lines 13-40)\<close>

record exec_result =
  stdout :: string
  stderr :: string

text \<open>\<^verbatim>\<open>traceback.format_exc()\<close> inside the handler.\<close>

definition format_exc :: "script_run \<Rightarrow> string" where
  "format_exc r = ''Traceback (most recent call last):\<newline>'' @ tb_detail r"

text \<open>
  \<^verbatim>\<open>
  old_stdout, old_stderr = sys.stdout, sys.stderr
  sys.stdout, sys.stderr = io.StringIO(), io.StringIO()
  try:
      exec(code, execution_globals)
  except Exception:
      tb_string = traceback.format_exc()
      sys.stderr.write(tb_string)
  finally:
      captured_stdout = sys.stdout.getvalue()
      captured_stderr = sys.stderr.getvalue()
      sys.stdout, sys.stderr = old_stdout, old_stderr
  return {"stdout": captured_stdout, "stderr": captured_stderr}
  \<close>
  An exception that \<^verbatim>\<open>except Exception\<close> does not catch, and one raised by the
  \<^verbatim>\<open>write\<close> of line 34, is pending while the \<^verbatim>\<open>finally\<close> block runs and leaves the
  function after it. An exception raised by \<^verbatim>\<open>getvalue()\<close> in the \<^verbatim>\<open>finally\<close> block
  leaves the function at once, before the last line of the block, and replaces any
  other. The imports of \<^verbatim>\<open>execution_globals\<close> are taken to succeed.
  \<open>with_fresh_streams\<close> is line 28: two new \<^verbatim>\<open>io.StringIO()\<close> objects, open and empty,
  bound to \<^verbatim>\<open>sys.stdout\<close> and \<^verbatim>\<open>sys.stderr\<close>.
\<close>

definition with_fresh_streams :: "proc \<Rightarrow> proc" where
  "with_fresh_streams s =
     s\<lparr>sys_stdout := StringIO (next_obj s), sys_stderr := StringIO (Suc (next_obj s)),
       stream := (stream s)(StringIO (next_obj s) := [], StringIO (Suc (next_obj s)) := []),
       closed := (closed s)(StringIO (next_obj s) := False, StringIO (Suc (next_obj s)) := False),
       next_obj := Suc (Suc (next_obj s))\<rparr>"

definition execute_python_code :: "world \<Rightarrow> string \<Rightarrow> proc \<Rightarrow> (py_exc + exec_result) \<times> proc" where
  "execute_python_code w code s =
     (let old_stdout = sys_stdout s;
          old_stderr = sys_stderr s;
          s1 = with_fresh_streams s;
          r = exec_script w code s1;
          s2 = script_effects r s1;
          (pending, s3) =
            (case raised r of
               None \<Rightarrow> (None, s2)
             | Some e \<Rightarrow>
                 if is_Exception (cls e)
                 then (case sys_write (sys_stderr s2) (format_exc r) s2 of
                         Inl e' \<Rightarrow> (Some e', s2)
                       | Inr s' \<Rightarrow> (None, s'))
                 else (Some e, s2))
      in case getvalue (sys_stdout s3) s3 of
           Inl e \<Rightarrow> (Inl e, s3)
         | Inr captured_stdout \<Rightarrow>
             (case getvalue (sys_stderr s3) s3 of
                Inl e \<Rightarrow> (Inl e, s3)
              | Inr captured_stderr \<Rightarrow>
                  let s4 = s3\<lparr>sys_stdout := old_stdout, sys_stderr := old_stderr\<rparr> in
                  (case pending of
                     None \<Rightarrow> (Inr \<lparr>stdout = captured_stdout, stderr = captured_stderr\<rparr>, s4)
                   | Some e \<Rightarrow> (Inl e, s4))))"

section \<open>\<^verbatim>\<open>DataAnalystAgent.run\<close> (\<^verbatim>\<open>agent.py\<close>, lines 58-135)\<close>

record DataAnalystAgent =
  work_dir :: string

definition prompt_head :: string where
  "prompt_head =
     ''You are an expert Python data analyst. Your task is to write a single, self-contained Python script to answer the user'' @
     [CHR 0x27] @
     ''s request.\<newline>'' @
     ''\<newline>'' @
     ''User'' @
     [CHR 0x27] @
     ''s files available in the current directory: [''"

definition prompt_mid :: string where
  "prompt_mid =
     '']\<newline>'' @
     ''User'' @
     [CHR 0x27] @
     ''s request:\<newline>'' @
     ''---\<newline>''"

definition prompt_tail :: string where
  "prompt_tail =
     ''\<newline>'' @
     ''---\<newline>'' @
     ''\<newline>'' @
     ''CRITICAL INSTRUCTIONS:\<newline>'' @
     ''1.  Your output MUST be a single Python script wrapped in ```python ... ```.\<newline>'' @
     ''2.  **MATPLOTLIB SETUP:** If you need to generate a plot, the first three lines of your script MUST be exactly:\<newline>'' @
     ''    ```python\<newline>'' @
     ''    import matplotlib\<newline>'' @
     ''    matplotlib.use('' @
     [CHR 0x27] @
     ''Agg'' @
     [CHR 0x27] @
     '')\<newline>'' @
     ''    import matplotlib.pyplot as plt\<newline>'' @
     ''    ```\<newline>'' @
     ''    This prevents server errors.\<newline>'' @
     ''3.  **PLOT GENERATION:** The script must generate plots, save them to an in-memory buffer (`io.BytesIO`), encode them to a base64 string, and format as a data URI (`data:image/png;base64,...`).\<newline>'' @
     ''4.  **FINAL OUTPUT:** The **very last line of your script** MUST be a single `print()` statement that outputs a valid JSON array or object containing all the answers. Convert numpy types (like np.int64) to standard Python types (int, float) before creating the JSON.\<newline>'' @
     ''\<newline>'' @
     ''Example of a final line for a script requesting a number, a string, and a plot:\<newline>'' @
     ''`print(json.dumps([int(some_numpy_number), '' @
     [CHR 0x22] @
     ''some_string'' @
     [CHR 0x22] @
     '', plot_data_uri]))`\<newline>''"

text \<open>
  \<^verbatim>\<open>file_list_str = ", ".join(files) if files else "No files were uploaded."\<close>
\<close>

definition file_list_str :: "string list \<Rightarrow> string" where
  "file_list_str fs = (if fs \<noteq> [] then str_join '', '' fs else ''No files were uploaded.'')"

definition prompt :: "string list \<Rightarrow> string \<Rightarrow> string" where
  "prompt fs question = prompt_head @ file_list_str fs @ prompt_mid @ question @ prompt_tail"

text \<open>
  Lines 112-125: the checks on the execution result, in the source's order.
  \<^verbatim>\<open>"Traceback" in result["stderr"]\<close> is the substring test.
\<close>

definition check_result :: "exec_result \<Rightarrow> py_exc + string" where
  "check_result result =
     (if sublist ''Traceback'' (stderr result)
      then Inl (Exc Exception (''Error during Python script execution: '' @ stderr result))
      else
        let final_json_output = strip (stdout result) in
        if final_json_output = [] then
          (if stderr result \<noteq> []
           then Inl (Exc ValueError
                  (''The generated script did not print any output. Warnings: '' @ stderr result))
           else Inl (Exc ValueError ''The generated script did not print any output.''))
        else
          (case json_loads final_json_output of
             Inl e \<Rightarrow> Inl e
           | Inr _ \<Rightarrow> Inr final_json_output))"

text \<open>
  The \<^verbatim>\<open>try\<close> block, lines 89-125. Both \<^verbatim>\<open>except\<close> clauses (lines 127-133) log and
  re-raise, and an exception they do not catch passes through, so what the block
  raises is what \<^verbatim>\<open>run\<close> raises.
\<close>

definition run_try :: "world \<Rightarrow> string \<Rightarrow> string list \<Rightarrow> proc \<Rightarrow> (py_exc + string) \<times> proc" where
  "run_try w question fs s =
     (case generate_content w (prompt fs question) of
        Inl e \<Rightarrow> (Inl e, s)
      | Inr response \<Rightarrow>
          if candidates response = []
          then (Inl (Exc ValueError
                  (''API call failed: The request was likely blocked. Feedback: ''
                     @ prompt_feedback response)), s)
          else
            (case execute_python_code w (code_to_execute (resp_text response)) s of
               (Inl e, s') \<Rightarrow> (Inl e, s')
             | (Inr result, s') \<Rightarrow> (check_result result, s')))"

text \<open>
  \<^verbatim>\<open>
  original_dir = os.getcwd()
  os.chdir(self.work_dir)
  ...
  try: ...
  finally:
      os.chdir(original_dir)
  \<close>
  The first \<^verbatim>\<open>os.chdir\<close> is outside the \<^verbatim>\<open>try\<close>; an exception raised by the one in
  \<^verbatim>\<open>finally\<close> replaces the outcome of the block.
\<close>

definition run :: "DataAnalystAgent \<Rightarrow> world \<Rightarrow> string \<Rightarrow> string list \<Rightarrow> proc \<Rightarrow> (py_exc + string) \<times> proc" where
  "run self w question fs s =
     (let original_dir = cwd s in
      case os_chdir (work_dir self) s of
        Inl e \<Rightarrow> (Inl e, s)
      | Inr s1 \<Rightarrow>
          (case run_try w question fs s1 of
             (outcome, s2) \<Rightarrow>
               (case os_chdir original_dir s2 of
                  Inl e \<Rightarrow> (Inl e, s2)
                | Inr s3 \<Rightarrow> (outcome, s3))))"

section \<open>\<^verbatim>\<open>handle_analysis_request\<close> (\<^verbatim>\<open>app.py\<close>, lines 25-74)\<close>

text \<open>
  A response is its status code and the value given to \<^verbatim>\<open>jsonify\<close>; the framework's
  serialisation of that value is outside the repository.
\<close>

record http_response =
  status :: nat
  body :: json

definition ustr_of :: "string \<Rightarrow> ustr" where
  "ustr_of s = map of_char s"

definition error_envelope :: "string \<Rightarrow> json" where
  "error_envelope e = JObj [(ustr_of ''error'', JStr (ustr_of e))]"

definition error_details_envelope :: "string \<Rightarrow> string \<Rightarrow> json" where
  "error_details_envelope e d =
     JObj [(ustr_of ''error'', JStr (ustr_of e)), (ustr_of ''details'', JStr (ustr_of d))]"

text \<open>
  \<^verbatim>\<open>file_storage.save(file_path)\<close>: opening a directory for writing fails; the parent is
  the scratch directory made just before.
\<close>

definition file_storage_save :: "string \<Rightarrow> string \<Rightarrow> proc \<Rightarrow> py_exc + proc" where
  "file_storage_save file_path content s =
     (if files s (abspath s file_path) = Some Dir
         \<or> os_path_basename file_path \<in> set [[], ''.'', ''..'']
      then Inl (Exc IsADirectoryError (''[Errno 21] Is a directory: '' @ py_repr file_path))
      else Inr (write_file file_path content s))"

text \<open>
  Lines 40-46, the loop over \<^verbatim>\<open>request.files.items()\<close>; the loop stops at the first
  exception.
\<close>

fun save_uploads ::
  "string \<Rightarrow> (string \<times> string) list \<Rightarrow> string list \<Rightarrow> proc \<Rightarrow> (py_exc + string list) \<times> proc"
where
  "save_uploads temp_dir [] uploaded_files s = (Inr uploaded_files, s)"
| "save_uploads temp_dir ((filename, content) # rest) uploaded_files s =
     (let sanitized_filename = os_path_basename filename;
          file_path = os_path_join temp_dir sanitized_filename
      in case file_storage_save file_path content s of
           Inl e \<Rightarrow> (Inl e, s)
         | Inr s' \<Rightarrow>
             save_uploads temp_dir rest
               (if sanitized_filename \<noteq> ''questions.txt''
                then uploaded_files @ [sanitized_filename] else uploaded_files) s')"

text \<open>\<^verbatim>\<open>open(question_path, 'r', encoding='utf-8')\<close> and \<^verbatim>\<open>f.read()\<close>.\<close>

definition read_text :: "world \<Rightarrow> string \<Rightarrow> proc \<Rightarrow> py_exc + string" where
  "read_text w p s =
     (case files s (abspath s p) of
        None \<Rightarrow> Inl (Exc FileNotFoundError (''[Errno 2] No such file or directory: '' @ py_repr p))
      | Some Dir \<Rightarrow> Inl (Exc IsADirectoryError (''[Errno 21] Is a directory: '' @ py_repr p))
      | Some (File content) \<Rightarrow>
          (case utf8_decode w content of
             None \<Rightarrow> Inl (Exc UnicodeDecodeError [])
           | Some t \<Rightarrow> Inr t))"

text \<open>
  \<^verbatim>\<open>request.files\<close> is a list of parts (field name, content); \<^verbatim>\<open>items()\<close> gives the
  first part of each name.
\<close>

definition request_items :: "(string \<times> string) list \<Rightarrow> (string \<times> string) list" where
  "request_items parts = AList.clearjunk parts"

text \<open>The \<^verbatim>\<open>try\<close> block, lines 39-57; its value is \<^verbatim>\<open>response_data\<close>.\<close>

definition handler_try ::
  "world \<Rightarrow> string \<Rightarrow> (string \<times> string) list \<Rightarrow> proc \<Rightarrow> (py_exc + json) \<times> proc" where
  "handler_try w temp_dir parts s =
     (case save_uploads temp_dir (request_items parts) [] s of
        (Inl e, s1) \<Rightarrow> (Inl e, s1)
      | (Inr uploaded_files, s1) \<Rightarrow>
          (case read_text w (os_path_join temp_dir ''questions.txt'') s1 of
             Inl e \<Rightarrow> (Inl e, s1)
           | Inr question_content \<Rightarrow>
               (case run \<lparr>work_dir = temp_dir\<rparr> w question_content uploaded_files s1 of
                  (Inl e, s2) \<Rightarrow> (Inl e, s2)
                | (Inr result_json_str, s2) \<Rightarrow> (json_loads result_json_str, s2))))"

text \<open>
  Lines 57-69: the response of each way out of the \<^verbatim>\<open>try\<close> block. An exception that
  \<^verbatim>\<open>except Exception\<close> does not catch leaves the handler.
\<close>

definition respond :: "py_exc + json \<Rightarrow> py_exc + http_response" where
  "respond outcome =
     (case outcome of
        Inr response_data \<Rightarrow> Inr \<lparr>status = 200, body = response_data\<rparr>
      | Inl e \<Rightarrow>
          if is_timeout (cls e)
          then Inr \<lparr>status = 503,
                    body = error_details_envelope
                      ''The analysis service API is currently overloaded or the request timed out.''
                      (msg e)\<rparr>
          else if is_Exception (cls e)
          then Inr \<lparr>status = 500,
                    body = error_details_envelope ''An internal server error occurred.'' (msg e)\<rparr>
          else Inl e)"

text \<open>
  \<^verbatim>\<open>GOOGLE_API_KEY\<close> is \<^verbatim>\<open>os.environ.get("GOOGLE_API_KEY")\<close>: \<^verbatim>\<open>None\<close> or a string, and
  \<^verbatim>\<open>not GOOGLE_API_KEY\<close> holds for \<^verbatim>\<open>None\<close> and for the empty string. \<open>request_id\<close> is
  the value \<^verbatim>\<open>str(uuid.uuid4())\<close> gives for this request. \<^verbatim>\<open>os.makedirs\<close> is outside the
  \<^verbatim>\<open>try\<close>; an exception raised in \<^verbatim>\<open>finally\<close> replaces the outcome.
\<close>

definition handle_analysis_request ::
  "world \<Rightarrow> string option \<Rightarrow> (string \<times> string) list \<Rightarrow> string \<Rightarrow> proc \<Rightarrow> (py_exc + http_response) \<times> proc"
where
  "handle_analysis_request w GOOGLE_API_KEY parts request_id s =
     (if GOOGLE_API_KEY = None \<or> GOOGLE_API_KEY = Some []
      then (Inr \<lparr>status = 500, body = error_envelope ''API key is not configured on the server.''\<rparr>, s)
      else if ''questions.txt'' \<notin> set (map fst parts)
      then (Inr \<lparr>status = 400,
                  body = error_envelope ([CHR 0x27] @ ''questions.txt'' @ [CHR 0x27] @ '' is a required file part.'')\<rparr>, s)
      else
        let temp_dir = os_path_join ''temp'' request_id in
        case os_makedirs temp_dir s of
          Inl e \<Rightarrow> (Inl e, s)
        | Inr s1 \<Rightarrow>
            (case handler_try w temp_dir parts s1 of
               (outcome, s2) \<Rightarrow>
                 if os_path_exists temp_dir s2
                 then (case shutil_rmtree temp_dir s2 of
                         Inl e \<Rightarrow> (Inl e, s2)
                       | Inr s3 \<Rightarrow> (respond outcome, s3))
                 else (respond outcome, s2)))"

text \<open>A well-formed process state: the working directory is an absolute path of a directory.\<close>

definition wf_proc :: "proc \<Rightarrow> bool" where
  "wf_proc s \<longleftrightarrow> cwd s \<noteq> [] \<and> hd (cwd s) = CHR ''/'' \<and> files s (cwd s) = Some Dir"

text \<open>Every directory of the first state is a directory of the second.\<close>

definition dirs_kept :: "proc \<Rightarrow> proc \<Rightarrow> bool" where
  "dirs_kept s t \<longleftrightarrow> (\<forall>p. files s p = Some Dir \<longrightarrow> files t p = Some Dir)"

section \<open>Sample inputs\<close>

text \<open>
  A process started in \<^verbatim>\<open>/app\<close>, where \<^verbatim>\<open>temp\<close> exists (lines 18-19 of \<^verbatim>\<open>app.py\<close>),
  and a world in which the service answers every prompt with one given reply, every
  script behaves as one given run, and every file content decodes to itself.
\<close>

definition sample_proc :: proc where
  "sample_proc =
     \<lparr>cwd = ''/app'',
      files = [''/app'' \<mapsto> Dir, ''/app/temp'' \<mapsto> Dir],
      sys_stdout = TextIO 0, sys_stderr = TextIO 1,
      stream = (\<lambda>_. []),
      closed = (\<lambda>_. False),
      next_obj = 2\<rparr>"

definition sample_world :: "py_exc + response \<Rightarrow> script_run \<Rightarrow> world" where
  "sample_world reply r =
     \<lparr>generate_content = (\<lambda>_. reply),
      exec_script = (\<lambda>_ _. r),
      utf8_decode = Some\<rparr>"

definition reply_with :: "string \<Rightarrow> py_exc + response" where
  "reply_with t = Inr \<lparr>candidates = [t], resp_text = t, prompt_feedback = []\<rparr>"

definition script_prints :: "string \<Rightarrow> string \<Rightarrow> script_run" where
  "script_prints out err =
     \<lparr>printed = out, warned = err, created = [], moved_to = None,
      closes_stdout = False, closes_stderr = False,
      rebinds_stdout = None, rebinds_stderr = None, raised = None, tb_detail = []\<rparr>"

definition sample_agent :: DataAnalystAgent where
  "sample_agent = \<lparr>work_dir = ''temp''\<rparr>"

text \<open>A script that prints an answer, writes a file and changes the directory.\<close>

definition script_plots :: script_run where
  "script_plots =
     \<lparr>printed = ''[1]\<newline>'', warned = [], created = [(''plot.png'', ''PNG'')],
      moved_to = Some ''/app'', closes_stdout = False, closes_stderr = False,
      rebinds_stdout = None, rebinds_stderr = None,
      raised = None, tb_detail = []\<rparr>"

text \<open>A script that finds its data file only when run in \<^verbatim>\<open>/app/temp\<close>.\<close>

definition needs_scratch_dir :: "string \<Rightarrow> proc \<Rightarrow> script_run" where
  "needs_scratch_dir code t =
     (if cwd t = ''/app/temp'' then script_plots
      else \<lparr>printed = [], warned = [], created = [], moved_to = None,
             closes_stdout = False, closes_stderr = False,
             rebinds_stdout = None, rebinds_stderr = None,
             raised = Some (Exc FileNotFoundError ''data.csv''), tb_detail = []\<rparr>)"

text \<open>
  The run of \<^verbatim>\<open>import os, sys\<close>, \<^verbatim>\<open>print("[1]")\<close>,
  \<^verbatim>\<open>sys.stdout = open(os.devnull, 'w')\<close>.
\<close>

definition script_silences_stdout :: script_run where
  "script_silences_stdout =
     \<lparr>printed = ''[1]\<newline>'', warned = [], created = [], moved_to = None,
      closes_stdout = False, closes_stderr = False,
      rebinds_stdout = Some (TextIO 7), rebinds_stderr = None, raised = None, tb_detail = []\<rparr>"

definition sample_answer :: json where
  "sample_answer =
     JObj [(ustr_of ''rows'', JInt 3),
           (ustr_of ''share'', JFloat ''0.75''),
           (ustr_of ''names'', JArr [JStr (ustr_of ''a b''), JNull, JBool True, JInt (- 12)])]"

definition sample_parts :: "(string \<times> string) list" where
  "sample_parts = [(''questions.txt'', ''How many rows?''), (''data.csv'', ''1,2'')]"

definition script_raises :: "string \<Rightarrow> string \<Rightarrow> py_exc \<Rightarrow> string \<Rightarrow> script_run" where
  "script_raises out err e tb =
     \<lparr>printed = out, warned = err, created = [], moved_to = None,
      closes_stdout = False, closes_stderr = False,
      rebinds_stdout = None, rebinds_stderr = None, raised = Some e, tb_detail = tb\<rparr>"

text \<open>
  The run of \<^verbatim>\<open>import sys\<close>, \<^verbatim>\<open>sys.stdout.close()\<close>, \<^verbatim>\<open>raise ValueError('bad')\<close>.
\<close>

definition script_closes_stdout_and_raises :: script_run where
  "script_closes_stdout_and_raises =
     \<lparr>printed = [], warned = [], created = [], moved_to = None,
      closes_stdout = True, closes_stderr = False,
      rebinds_stdout = None, rebinds_stderr = None,
      raised = Some (Exc ValueError ''bad''), tb_detail = ''ValueError: bad\<newline>''\<rparr>"

section \<open>Code extraction: what the pattern selects\<close>

lemma fence_nonempty: "fence \<noteq> []" by (simp add: fence_def)

lemma ulf_None: "upto_last_fence s = None \<longleftrightarrow> \<not> sublist fence s"
  by (induction s) (auto simp: sublist_Cons_right fence_nonempty split: option.splits)

lemma ulf_last: "\<not> sublist fence (tl fence @ post) \<Longrightarrow> upto_last_fence (a @ fence @ post) = Some a"
proof (induction a)
  case Nil
  have f: "fence @ post = hd fence # (tl fence @ post)" using fence_nonempty by (cases fence) auto
  from Nil have "upto_last_fence (tl fence @ post) = None" by (simp add: ulf_None)
  moreover have "prefix fence (hd fence # (tl fence @ post))" by (metis f prefixI)
  ultimately show ?case unfolding append_Nil f by simp
next
  case (Cons x a)
  then show ?case by simp
qed

lemma g2_fence: "\<not> sublist fence (tl fence @ post) \<Longrightarrow> a \<noteq> [] \<Longrightarrow> group2_then_fence (a @ fence @ post) = Some a"
  by (cases a) (simp_all add: group2_then_fence_def ulf_last)

lemma g2_fence_empty: "\<not> sublist fence (tl fence @ post) \<Longrightarrow> group2_then_fence (fence @ post) = None"
proof -
  assume a: "\<not> sublist fence (tl fence @ post)"
  have f: "fence @ post = hd fence # (tl fence @ post)" using fence_nonempty by (cases fence) auto
  show ?thesis unfolding f using a by (simp add: group2_then_fence_def ulf_None)
qed

lemma spaces_then_rest_body:
  assumes "\<not> sublist fence (tl fence @ post)" "inner \<noteq> []" "k \<le> length inner"
  shows "\<exists>j\<le>k. j < length inner \<and> spaces_then_rest k (inner @ fence @ post) = Some (drop j inner)"
  using assms(3)
proof (induction k)
  case 0
  then show ?case using assms by (simp add: g2_fence)
next
  case (Suc k)
  show ?case
  proof (cases "Suc k < length inner")
    case True
    then have "drop (Suc k) inner \<noteq> []" by simp
    then have "group2_then_fence (drop (Suc k) inner @ fence @ post) = Some (drop (Suc k) inner)"
      using assms(1) g2_fence by blast
    then show ?thesis using True by (intro exI[of _ "Suc k"]) simp
  next
    case False
    with Suc.prems have e: "Suc k = length inner" by simp
    then have "group2_then_fence (drop (Suc k) (inner @ fence @ post)) = None"
      using g2_fence_empty[OF assms(1)] by simp
    moreover obtain j where "j \<le> k" "j < length inner" "spaces_then_rest k (inner @ fence @ post) = Some (drop j inner)"
      using Suc.IH e by auto
    ultimately show ?thesis by (intro exI[of _ j]) simp
  qed
qed

lemma dropWhile_drop_spaces:
  "j \<le> length (takeWhile P s) \<Longrightarrow> dropWhile P (drop j s) = dropWhile P s"
proof (induction s arbitrary: j)
  case Nil then show ?case by simp
next
  case (Cons c s)
  then show ?case by (cases j) (auto split: if_splits)
qed

lemma strip_drop_spaces: "j \<le> length (takeWhile is_space s) \<Longrightarrow> strip (drop j s) = strip s"
  by (simp add: strip_def dropWhile_drop_spaces)

lemma tl_fence: "tl fence = ''``''" by (simp add: fence_def)
lemma length_fence: "length fence = 3" by (simp add: fence_def)
lemma fence_split: "fence = ''``'' @ ''`''" by (simp add: fence_def)

lemma prefix_fence_shift:
  assumes "prefix fence (p # pre @ fence @ r)"
  shows "prefix fence (p # pre @ ''``'')"
proof -
  have "take 3 (p # pre @ fence @ r) = fence"
    using assms length_fence by (metis append_eq_conv_conj prefix_def)
  moreover have "take 3 (p # pre @ fence @ r) = take 3 (p # pre @ ''``'')"
  proof -
    have "p # pre @ fence @ r = (p # pre @ ''``'') @ (''`'' @ r)" by (simp add: fence_def)
    moreover have "3 \<le> length (p # pre @ ''``'')" by simp
    ultimately show ?thesis by (metis append.right_neutral diff_is_0_eq take_0 take_append)
  qed
  ultimately have "take 3 (p # pre @ ''``'') = fence" by simp
  then show ?thesis by (metis take_is_prefix)
qed

lemma match_at_not_prefix: "\<not> prefix fence s \<Longrightarrow> match_at s = None"
  by (simp add: match_at_def)

lemma re_search_skip_prose:
  "\<not> sublist fence (pre @ ''``'') \<Longrightarrow>
   re_search (pre @ fence @ r) =
     (case match_at (fence @ r) of Some g \<Rightarrow> Some g | None \<Rightarrow> re_search (''``'' @ r))"
proof (induction pre)
  case Nil
  have "fence @ r = CHR 0x60 # (''``'' @ r)" by (simp add: fence_def)
  then show ?case by (metis append_Nil re_search.simps(2))
next
  case (Cons p pre)
  from Cons.prems have np: "\<not> prefix fence (p # pre @ ''``'')" and ns: "\<not> sublist fence (pre @ ''``'')"
    by (auto simp: sublist_Cons_right)
  from np have "\<not> prefix fence (p # pre @ fence @ r)" using prefix_fence_shift by blast
  then have "match_at ((p # pre) @ fence @ r) = None" by (simp add: match_at_not_prefix)
  then show ?case using Cons.IH[OF ns] by simp
qed

lemma not_space_backtick: "\<not> is_space (CHR 0x60)" by (simp add: is_space_def)

lemma takeWhile_space_body:
  "length (takeWhile is_space (inner @ fence @ post)) = length (takeWhile is_space inner)"
  by (induction inner) (simp_all add: fence_def not_space_backtick)

lemma match_at_tagged:
  assumes "\<not> sublist fence (''``'' @ post)" "inner \<noteq> []"
  shows "\<exists>j \<le> length (takeWhile is_space inner).
           match_at (fence @ ''python'' @ inner @ fence @ post) = Some (drop j inner)"
proof -
  have l: "\<not> sublist fence (tl fence @ post)" using assms(1) by (simp add: tl_fence)
  let ?n = "length (takeWhile is_space inner)"
  have "?n \<le> length inner" by (simp add: length_takeWhile_le)
  from spaces_then_rest_body[OF l assms(2) this]
  obtain j where j: "j \<le> ?n" "spaces_then_rest ?n (inner @ fence @ post) = Some (drop j inner)" by blast
  have "match_at (fence @ ''python'' @ inner @ fence @ post) = Some (drop j inner)"
    using j(2) by (simp add: match_at_def takeWhile_space_body length_fence)
  with j(1) show ?thesis by blast
qed

lemma python_prefix_body:
  assumes "prefix ''python'' (inner @ fence @ post)"
  shows "prefix ''python'' inner"
proof (rule ccontr)
  assume n: "\<not> prefix ''python'' inner"
  from assms have "prefix ''python'' inner \<or> (\<exists>us. ''python'' = inner @ us \<and> prefix us (fence @ post))"
    by (rule iffD1[OF prefix_append])
  with n obtain us where us: "''python'' = inner @ us" "prefix us (fence @ post)" by blast
  have "us \<noteq> []" using n us(1) by (metis append_Nil2 prefix_order.refl)
  then have "hd us = CHR 0x60" using us(2) by (cases us) (auto simp: fence_def)
  moreover have "hd us \<in> set (inner @ us)" using \<open>us \<noteq> []\<close> by simp
  then have "hd us \<in> set ''python''" unfolding us(1)[symmetric] .
  ultimately show False by simp
qed

lemma match_at_untagged:
  assumes "\<not> sublist fence (''``'' @ post)" "inner \<noteq> []" "\<not> prefix ''python'' inner"
  shows "match_at (fence @ inner @ fence @ post) = Some inner"
proof -
  have l: "\<not> sublist fence (tl fence @ post)" using assms(1) by (simp add: tl_fence)
  have "\<not> prefix ''python'' (inner @ fence @ post)" using assms(3) python_prefix_body by blast
  then show ?thesis
    using g2_fence[OF l assms(2)] by (simp add: match_at_def length_fence)
qed

lemma match_at_tag_only:
  assumes "\<not> sublist fence (''``'' @ post)"
  shows "match_at (fence @ ''python'' @ fence @ post) = Some ''python''"
proof -
  have l: "\<not> sublist fence (tl fence @ post)" using assms by (simp add: tl_fence)
  have t: "takeWhile is_space (fence @ post) = []"
    by (simp add: fence_def not_space_backtick)
  have n: "group2_then_fence (fence @ post) = None" using l by (rule g2_fence_empty)
  have u: "group2_then_fence (''python'' @ fence @ post) = Some ''python''"
    using g2_fence[OF l, of "''python''"] by simp
  show ?thesis
    using t n u by (simp add: match_at_def length_fence)
qed

lemma ulf_sound: "upto_last_fence s = Some g \<Longrightarrow> \<exists>rest. s = g @ fence @ rest"
proof (induction s arbitrary: g)
  case Nil then show ?case by simp
next
  case (Cons c s)
  show ?case
  proof (cases "upto_last_fence s")
    case None
    with Cons.prems have "prefix fence (c # s)" "g = []" by (auto split: if_splits)
    then show ?thesis by (auto simp: prefix_def)
  next
    case (Some t)
    with Cons.prems have "g = c # t" by simp
    moreover obtain rest where "s = t @ fence @ rest" using Cons.IH[OF Some] by blast
    ultimately show ?thesis by simp
  qed
qed

lemma g2_sound: "group2_then_fence r = Some g \<Longrightarrow> g \<noteq> [] \<and> (\<exists>rest. r = g @ fence @ rest)"
  by (cases r) (auto simp: group2_then_fence_def dest: ulf_sound)

lemma spaces_sound:
  "spaces_then_rest k r = Some g \<Longrightarrow> g \<noteq> [] \<and> (\<exists>a rest. r = a @ g @ fence @ rest)"
proof (induction k)
  case 0
  then show ?case using g2_sound by (metis append_Nil spaces_then_rest.simps(1))
next
  case (Suc k)
  show ?case
  proof (cases "group2_then_fence (drop (Suc k) r)")
    case None
    with Suc show ?thesis by simp
  next
    case (Some t)
    with Suc.prems have "t = g" by simp
    with Some g2_sound obtain rest where "g \<noteq> []" "drop (Suc k) r = g @ fence @ rest" by blast
    then show ?thesis by (metis append_take_drop_id)
  qed
qed

lemma match_at_sound:
  assumes "match_at s = Some g"
  shows "g \<noteq> [] \<and> (\<exists>a rest. s = fence @ a @ g @ fence @ rest)"
proof -
  from assms have p: "prefix fence s" by (auto simp: match_at_def split: if_splits)
  then obtain r where r: "s = fence @ r" by (auto simp: prefix_def)
  let ?t = "if prefix ''python'' r
            then spaces_then_rest (length (takeWhile is_space (drop 6 r))) (drop 6 r) else None"
  from assms r have m: "(case ?t of Some g \<Rightarrow> Some g | None \<Rightarrow> group2_then_fence r) = Some g"
    by (simp add: match_at_def Let_def)
  show ?thesis
  proof (cases ?t)
    case None
    with m have "group2_then_fence r = Some g" by simp
    then show ?thesis using g2_sound r by (metis append_Nil)
  next
    case (Some t)
    with m have tg: "?t = Some g" by simp
    then have "spaces_then_rest (length (takeWhile is_space (drop 6 r))) (drop 6 r) = Some g"
      by (auto split: if_splits)
    then obtain a rest where "g \<noteq> []" "drop 6 r = a @ g @ fence @ rest" using spaces_sound by blast
    then have "g \<noteq> []" "r = (take 6 r @ a) @ g @ fence @ rest" by (simp_all, metis append_take_drop_id)
    then show ?thesis using r by blast
  qed
qed

lemma re_search_sound:
  "re_search s = Some g \<Longrightarrow> g \<noteq> [] \<and> (\<exists>pre a rest. s = pre @ fence @ a @ g @ fence @ rest)"
proof (induction s)
  case Nil then show ?case by simp
next
  case (Cons c s)
  show ?case
  proof (cases "match_at (c # s)")
    case None
    with Cons.prems have "re_search s = Some g" by simp
    with Cons.IH obtain pre a rest where "g \<noteq> []" "s = pre @ fence @ a @ g @ fence @ rest" by blast
    then have "g \<noteq> []" "c # s = (c # pre) @ fence @ a @ g @ fence @ rest" by simp_all
    then show ?thesis by blast
  next
    case (Some t)
    with Cons.prems have "match_at (c # s) = Some g" by simp
    then show ?thesis using match_at_sound by (metis append_Nil)
  qed
qed

lemma match_at_complete:
  assumes "mid \<noteq> []"
  shows "match_at (fence @ mid @ fence @ post) \<noteq> None"
proof -
  obtain m ms where mid: "mid = m # ms" using assms by (cases mid) auto
  have "sublist fence (ms @ fence @ post)" by (meson sublist_appendI)
  then have "upto_last_fence (ms @ fence @ post) \<noteq> None" by (simp add: ulf_None)
  then have "group2_then_fence (mid @ fence @ post) \<noteq> None"
    by (simp add: group2_then_fence_def mid)
  then show ?thesis by (auto simp: match_at_def Let_def length_fence split: option.splits)
qed

lemma re_search_complete:
  "mid \<noteq> [] \<Longrightarrow> re_search (pre @ fence @ mid @ fence @ post) \<noteq> None"
proof (induction pre)
  case Nil
  obtain c cs where e: "fence @ mid @ fence @ post = c # cs" by (simp add: fence_def)
  have "match_at (c # cs) \<noteq> None" using match_at_complete[OF Nil] e by metis
  then have "re_search (c # cs) \<noteq> None" by (auto split: option.splits)
  then show ?case using e by simp
next
  case (Cons p pre)
  then show ?case by (auto split: option.splits)
qed

lemma re_search_None_iff: "re_search s = None \<longleftrightarrow> \<not> has_fenced_block s"
proof
  assume "re_search s = None"
  then show "\<not> has_fenced_block s"
    unfolding has_fenced_block_def using re_search_complete by blast
next
  assume n: "\<not> has_fenced_block s"
  show "re_search s = None"
  proof (rule ccontr)
    assume "re_search s \<noteq> None"
    then obtain g where "re_search s = Some g" by blast
    from re_search_sound[OF this] obtain pre a rest
      where "g \<noteq> []" "s = pre @ fence @ (a @ g) @ fence @ rest" by auto
    then have "has_fenced_block s" unfolding has_fenced_block_def by blast
    with n show False ..
  qed
qed

text \<open>
  Claim C2, as the code has it. Split the response at its first and its last fence. The
  script is the text between the two, after the tag \<^verbatim>\<open>python\<close> if the text starts with it
  and goes on, with the white space at both ends removed; everything before the first
  and after the last fence is discarded, and fences between the two stay in the script.
  (Between the fences, the bare word \<^verbatim>\<open>python\<close> is the script itself.) A response with no
  fenced block is the script as a whole, with the white space at both ends removed.
\<close>

theorem code_to_execute_first_fence_to_last_fence:
  assumes "\<not> sublist fence (pre @ ''``'')"
    and "\<not> sublist fence (''``'' @ post)"
    and "inner \<noteq> []"
  shows "code_to_execute (pre @ fence @ ''python'' @ inner @ fence @ post) = strip inner
       \<and> (\<not> prefix ''python'' inner \<longrightarrow>
            code_to_execute (pre @ fence @ inner @ fence @ post) = strip inner)
       \<and> code_to_execute (pre @ fence @ ''python'' @ fence @ post) = ''python''
       \<and> (\<not> has_fenced_block response_text \<longrightarrow>
            code_to_execute response_text = strip response_text)"
proof (intro conjI impI)
  obtain j where j: "j \<le> length (takeWhile is_space inner)"
      "match_at (fence @ ''python'' @ inner @ fence @ post) = Some (drop j inner)"
    using match_at_tagged[OF assms(2,3)] by blast
  have "re_search (pre @ fence @ ''python'' @ inner @ fence @ post) = Some (drop j inner)"
    using re_search_skip_prose[OF assms(1), of "''python'' @ inner @ fence @ post"] j(2) by simp
  then show "code_to_execute (pre @ fence @ ''python'' @ inner @ fence @ post) = strip inner"
    using strip_drop_spaces[OF j(1)] by (simp add: code_to_execute_def)
next
  assume "\<not> prefix ''python'' inner"
  then have "match_at (fence @ inner @ fence @ post) = Some inner"
    using match_at_untagged[OF assms(2,3)] by simp
  then have "re_search (pre @ fence @ inner @ fence @ post) = Some inner"
    using re_search_skip_prose[OF assms(1), of "inner @ fence @ post"] by simp
  then show "code_to_execute (pre @ fence @ inner @ fence @ post) = strip inner"
    by (simp add: code_to_execute_def)
next
  have "re_search (pre @ fence @ ''python'' @ fence @ post) = Some ''python''"
    using re_search_skip_prose[OF assms(1), of "''python'' @ fence @ post"]
      match_at_tag_only[OF assms(2)] by simp
  moreover have "strip ''python'' = ''python''" by code_simp
  ultimately show "code_to_execute (pre @ fence @ ''python'' @ fence @ post) = ''python''"
    by (simp add: code_to_execute_def)
next
  assume "\<not> has_fenced_block response_text"
  then have "re_search response_text = None" by (simp add: re_search_None_iff)
  then show "code_to_execute response_text = strip response_text"
    by (simp add: code_to_execute_def)
qed

text \<open>The theorem at a fenced reply with prose around it, tagged and untagged, and at a bare reply.\<close>

theorem code_to_execute_first_fence_to_last_fence_witness:
  "code_to_execute ''Here you go: ```python\<newline>print(1)\<newline>``` Enjoy.'' = ''print(1)''
   \<and> code_to_execute ''Here you go: ```\<newline>print(1)\<newline>``` Enjoy.'' = ''print(1)''
   \<and> code_to_execute ''Here you go: ```python``` Enjoy.'' = ''python''
   \<and> code_to_execute '' print(1) '' = ''print(1)''"
proof -
  have 1: "\<not> sublist fence (''Here you go: '' @ ''``'')"
    by code_simp
  have 2: "\<not> sublist fence (''``'' @ '' Enjoy.'')"
    by code_simp
  have 3: "''\<newline>print(1)\<newline>'' \<noteq> []" by simp
  have 4: "\<not> prefix ''python'' ''\<newline>print(1)\<newline>''" by simp
  have "re_search '' print(1) '' = None"
    by code_simp
  then have 5: "\<not> has_fenced_block '' print(1) ''" using re_search_None_iff by blast
  have s1: "strip ''\<newline>print(1)\<newline>'' = ''print(1)''" by code_simp
  have s2: "strip '' print(1) '' = ''print(1)''" by code_simp
  from code_to_execute_first_fence_to_last_fence[OF 1 2 3, of "'' print(1) ''"] 4 5 s1 s2
  show ?thesis by (simp add: fence_def)
qed

text \<open>
  Claim C2 as stated fails twice. A reply with two fenced blocks gives a script that runs
  from the first block to the end of the second, prose and fences between them
  included, not the inner text of the first block; and a bare reply with white space
  around it is not used verbatim.
\<close>

theorem code_to_execute_not_first_block_nor_verbatim:
  "code_to_execute
     ''```python\<newline>a = 1\<newline>```\<newline>Then:\<newline>```python\<newline>print(a)\<newline>```''
     = ''a = 1\<newline>```\<newline>Then:\<newline>```python\<newline>print(a)''
   \<and> code_to_execute
     ''```python\<newline>a = 1\<newline>```\<newline>Then:\<newline>```python\<newline>print(a)\<newline>```''
     \<noteq> ''a = 1''
   \<and> code_to_execute '' print(1) '' = ''print(1)''
   \<and> code_to_execute '' print(1) '' \<noteq> '' print(1) ''"
proof -
  have a: "code_to_execute
     ''```python\<newline>a = 1\<newline>```\<newline>Then:\<newline>```python\<newline>print(a)\<newline>```''
     = ''a = 1\<newline>```\<newline>Then:\<newline>```python\<newline>print(a)''"
    by code_simp
  have b: "code_to_execute '' print(1) '' = ''print(1)''"
    by code_simp
  show ?thesis unfolding a b by simp
qed

section \<open>Executing a script: streams and exceptions\<close>

lemma write_file_frame [simp]:
  "stream (write_file p c s) = stream s"
  "closed (write_file p c s) = closed s"
  "sys_stdout (write_file p c s) = sys_stdout s"
  "sys_stderr (write_file p c s) = sys_stderr s"
  "cwd (write_file p c s) = cwd s"
  "next_obj (write_file p c s) = next_obj s"
  by (simp_all add: write_file_def)

lemma fold_write_file_frame [simp]:
  "stream (fold (\<lambda>(p, c). write_file p c) xs s) = stream s"
  "closed (fold (\<lambda>(p, c). write_file p c) xs s) = closed s"
  "sys_stdout (fold (\<lambda>(p, c). write_file p c) xs s) = sys_stdout s"
  "sys_stderr (fold (\<lambda>(p, c). write_file p c) xs s) = sys_stderr s"
  "cwd (fold (\<lambda>(p, c). write_file p c) xs s) = cwd s"
  "next_obj (fold (\<lambda>(p, c). write_file p c) xs s) = next_obj s"
  by (induction xs arbitrary: s; simp add: split_def)+

lemma os_chdir_Inr: "os_chdir d s = Inr t \<Longrightarrow> t = s\<lparr>cwd := abspath s d\<rparr> \<and> files s (abspath s d) = Some Dir"
  by (auto simp: os_chdir_def split: option.splits node.splits)

lemma stream_write_frame [simp]:
  "sys_stdout (stream_write obj t s) = sys_stdout s"
  "sys_stderr (stream_write obj t s) = sys_stderr s"
  "cwd (stream_write obj t s) = cwd s"
  "files (stream_write obj t s) = files s"
  "next_obj (stream_write obj t s) = next_obj s"
  "closed (stream_write obj t s) = closed s"
  "stream (stream_write obj t s) = (stream s)(obj := stream s obj @ t)"
  by (simp_all add: stream_write_def)

lemma close_stream_frame [simp]:
  "sys_stdout (close_stream obj s) = sys_stdout s"
  "sys_stderr (close_stream obj s) = sys_stderr s"
  "cwd (close_stream obj s) = cwd s"
  "files (close_stream obj s) = files s"
  "next_obj (close_stream obj s) = next_obj s"
  "stream (close_stream obj s) = stream s"
  "closed (close_stream obj s) = (closed s)(obj := True)"
  by (simp_all add: close_stream_def)

lemma script_effects_frame [simp]:
  "next_obj (script_effects r s) = next_obj s"
  "sys_stdout (script_effects r s) = (case rebinds_stdout r of None \<Rightarrow> sys_stdout s | Some obj \<Rightarrow> obj)"
  "sys_stderr (script_effects r s) = (case rebinds_stderr r of None \<Rightarrow> sys_stderr s | Some obj \<Rightarrow> obj)"
  "stream (script_effects r s) =
     ((stream s)(sys_stdout s := stream s (sys_stdout s) @ printed r))
       (sys_stderr s := ((stream s)(sys_stdout s := stream s (sys_stdout s) @ printed r)) (sys_stderr s) @ warned r)"
  by (auto simp: script_effects_def Let_def split: option.splits sum.splits dest!: os_chdir_Inr)

lemma script_effects_closed:
  "closed (script_effects r s) obj \<longleftrightarrow>
     closed s obj \<or> (closes_stdout r \<and> obj = sys_stdout s) \<or> (closes_stderr r \<and> obj = sys_stderr s)"
  by (auto simp: script_effects_def Let_def split: option.splits sum.splits dest!: os_chdir_Inr)

lemma with_fresh_streams_simps [simp]:
  "sys_stdout (with_fresh_streams s) = StringIO (next_obj s)"
  "sys_stderr (with_fresh_streams s) = StringIO (Suc (next_obj s))"
  "stream (with_fresh_streams s)
     = (stream s)(StringIO (next_obj s) := [], StringIO (Suc (next_obj s)) := [])"
  "closed (with_fresh_streams s)
     = (closed s)(StringIO (next_obj s) := False, StringIO (Suc (next_obj s)) := False)"
  "cwd (with_fresh_streams s) = cwd s"
  "files (with_fresh_streams s) = files s"
  by (simp_all add: with_fresh_streams_def)

lemma getvalue_StringIO [simp]:
  "\<not> closed s (StringIO n) \<Longrightarrow> getvalue (StringIO n) s = Inr (stream s (StringIO n))"
  by (simp add: getvalue_def)

lemma sys_write_open [simp]:
  "\<not> closed s obj \<Longrightarrow> sys_write obj t s = Inr (stream_write obj t s)"
  by (simp add: sys_write_def)

lemma execute_python_code_fst:
  assumes "keeps_streams (exec_script w code (with_fresh_streams s))"
  shows "fst (execute_python_code w code s) =
     (let r = exec_script w code (with_fresh_streams s) in
      case raised r of
        None \<Rightarrow> Inr \<lparr>stdout = printed r, stderr = warned r\<rparr>
      | Some e \<Rightarrow>
          if is_Exception (cls e)
          then Inr \<lparr>stdout = printed r, stderr = warned r @ format_exc r\<rparr>
          else Inl e)"
  using assms
  by (simp add: execute_python_code_def keeps_streams_def script_effects_closed Let_def
           split: option.splits)

lemma execute_python_code_streams:
  assumes "keeps_streams (exec_script w code (with_fresh_streams s))"
  shows "sys_stdout (snd (execute_python_code w code s)) = sys_stdout s"
    and "sys_stderr (snd (execute_python_code w code s)) = sys_stderr s"
  using assms
  by (simp_all add: execute_python_code_def keeps_streams_def script_effects_closed Let_def
               split: option.splits)

text \<open>
  What claim C10 says holds for a script that does not assign to \<^verbatim>\<open>sys.stdout\<close> or
  \<^verbatim>\<open>sys.stderr\<close> and does not close the capture objects: the two are bound after the
  call to the objects they were bound to before it; a returned result holds in \<open>stdout\<close> all the script wrote to the redirected
  standard output and in \<open>stderr\<close> all it wrote to the redirected standard error, followed
  by the traceback when the script raised; and a call that does not return ends with the
  exception the script raised.
\<close>

lemma execute_python_code_restores_when_streams_kept:
  assumes "keeps_streams (exec_script w code (with_fresh_streams s))"
  shows "sys_stdout (snd (execute_python_code w code s)) = sys_stdout s
   \<and> sys_stderr (snd (execute_python_code w code s)) = sys_stderr s
   \<and> (let r = exec_script w code (with_fresh_streams s) in
        case fst (execute_python_code w code s) of
          Inr result \<Rightarrow>
            stdout result = printed r
            \<and> stderr result = warned r @ (if raised r = None then [] else format_exc r)
        | Inl e \<Rightarrow> raised r = Some e)"
  by (simp add: execute_python_code_fst[OF assms] execute_python_code_streams[OF assms] Let_def
           split: option.splits)

text \<open>
  Claim C10 at a script that prints its answer and then silences its output with
  \<^verbatim>\<open>sys.stdout = open(os.devnull, 'w')\<close>. In the \<^verbatim>\<open>finally\<close> block
  \<^verbatim>\<open>sys.stdout.getvalue()\<close> raises \<^verbatim>\<open>AttributeError\<close>, the line that restores the streams
  is not reached, and the call ends with that exception: \<^verbatim>\<open>sys.stdout\<close> stays bound to
  the script's file object and \<^verbatim>\<open>sys.stderr\<close> to the capture object, not to the two
  streams of the process.
\<close>

theorem execute_python_code_leaves_streams_rebound:
  "map_sum cls id
     (fst (execute_python_code (sample_world (reply_with []) script_silences_stdout)
             ''import os, sys ...'' sample_proc))
     = Inl AttributeError
   \<and> sys_stdout sample_proc = TextIO 0
   \<and> sys_stdout (snd (execute_python_code (sample_world (reply_with []) script_silences_stdout)
                         ''import os, sys ...'' sample_proc)) = TextIO 7
   \<and> sys_stderr sample_proc = TextIO 1
   \<and> sys_stderr (snd (execute_python_code (sample_world (reply_with []) script_silences_stdout)
                         ''import os, sys ...'' sample_proc)) = StringIO 3"
  by (simp add: execute_python_code_def getvalue_def sample_world_def script_silences_stdout_def
        sample_proc_def Let_def numeral_3_eq_3)

text \<open>
  The same happens when the capture object is closed: the script runs
  \<^verbatim>\<open>sys.stdout.close()\<close> and raises \<^verbatim>\<open>ValueError('bad')\<close>. The exception of the script is
  caught and its traceback written to the captured standard error; then
  \<^verbatim>\<open>sys.stdout.getvalue()\<close> raises the \<^verbatim>\<open>ValueError\<close> of a closed file, the call ends with
  it, and both streams stay bound to the capture objects.
\<close>

lemma execute_python_code_closed_capture:
  "fst (execute_python_code (sample_world (reply_with []) script_closes_stdout_and_raises)
          ''import sys\<newline>sys.stdout.close()\<newline>raise ValueError(...)'' sample_proc)
     = Inl (Exc ValueError ''I/O operation on closed file'')
   \<and> sys_stdout (snd (execute_python_code (sample_world (reply_with []) script_closes_stdout_and_raises)
          ''import sys\<newline>sys.stdout.close()\<newline>raise ValueError(...)'' sample_proc)) = StringIO 2
   \<and> sys_stderr (snd (execute_python_code (sample_world (reply_with []) script_closes_stdout_and_raises)
          ''import sys\<newline>sys.stdout.close()\<newline>raise ValueError(...)'' sample_proc)) = StringIO 3"
  by code_simp





section \<open>Decoding inverts encoding\<close>

lemma of_char_char_of_small: "n < 256 \<Longrightarrow> (of_char (char_of n :: char) :: nat) = n"
  by simp

lemma hex_val_hex_char: "d < 16 \<Longrightarrow> hex_val (hex_char d) = Some d"
  by (auto simp: hex_val_def hex_char_def Let_def)

lemma hex4_value:
  assumes "(n::nat) < 65536"
  shows "((n div 4096 mod 16 * 16 + n div 256 mod 16) * 16 + n div 16 mod 16) * 16 + n mod 16 = n"
proof -
  define a b c d m1 m2 where "a = n div 4096 mod 16" and "b = n div 256 mod 16"
    and "c = n div 16 mod 16" and "d = n mod 16" and "m1 = n mod 256" and "m2 = n mod 4096"
  have 1: "m1 = 16 * c + d"
    unfolding m1_def c_def d_def using mod_mult2_eq[of n 16 16] by simp
  have 2: "m2 = 256 * b + m1"
    unfolding m1_def m2_def b_def using mod_mult2_eq[of n 256 16] by simp
  have 3: "n mod 65536 = 4096 * a + m2"
    unfolding m2_def a_def using mod_mult2_eq[of n 4096 16] by simp
  have "n mod 65536 = n" using assms by simp
  with 1 2 3 have "((a * 16 + b) * 16 + c) * 16 + d = n" by simp
  then show ?thesis unfolding a_def b_def c_def d_def .
qed

lemma decode_hex4: "n < 65536 \<Longrightarrow> decode_uXXXX (hex4 n @ t) = Some n"
  using hex4_value[of n] by (simp add: decode_uXXXX_def hex4_def hex_val_hex_char)


lemma scanstring_plain:
  assumes "c \<noteq> CHR 0x22" "c \<noteq> CHR 0x5C" "32 \<le> (of_char c :: nat)"
    and "scanstring t = Some (s, rest)"
  shows "scanstring (c # t) = Some (of_char c # s, rest)"
  using assms by simp

lemma scanstring_short_escape:
  assumes "backslash e = Some n" "e \<noteq> CHR ''u''" "scanstring t = Some (s, rest)"
  shows "scanstring (CHR 0x5C # e # t) = Some (n # s, rest)"
  using assms by simp

lemma scanstring_u_escape:
  assumes "n < 65536" "\<not> (0xD800 \<le> n \<and> n \<le> 0xDBFF)" "scanstring t = Some (s, rest)"
  shows "scanstring (CHR 0x5C # CHR ''u'' # hex4 n @ t) = Some (n # s, rest)"
proof -
  have l: "length (hex4 n) = 4" by (simp add: hex4_def)
  show ?thesis using assms decode_hex4[OF assms(1), of t] l by auto
qed

lemma scanstring_surrogate_pair:
  assumes "0xD800 \<le> h" "h \<le> 0xDBFF" "0xDC00 \<le> l" "l \<le> 0xDFFF" "scanstring t = Some (s, rest)"
  shows "scanstring (CHR 0x5C # CHR ''u'' # hex4 h @ CHR 0x5C # CHR ''u'' # hex4 l @ t)
           = Some ((0x10000 + (h - 0xD800) * 1024 + (l - 0xDC00)) # s, rest)"
proof -
  have lh: "length (hex4 h) = 4" and ll: "length (hex4 l) = 4" by (simp_all add: hex4_def)
  have dh: "decode_uXXXX (hex4 h @ CHR 0x5C # CHR ''u'' # hex4 l @ t) = Some h"
    using decode_hex4[of h] assms(2) by simp
  have dl: "decode_uXXXX (hex4 l @ t) = Some l"
    using decode_hex4[of l] assms(4) by simp
  show ?thesis using assms dh dl lh ll by simp
qed

lemma scanstring_escape_cp:
  assumes "scalar n" "scanstring t = Some (s, rest)"
  shows "scanstring (escape_cp n @ t) = Some (n # s, rest)"
proof -
  consider "n = 0x5C" | "n = 0x22" | "n = 8" | "n = 12" | "n = 10" | "n = 13" | "n = 9"
    | "n \<noteq> 0x5C" "n \<noteq> 0x22" "32 \<le> n" "n \<le> 126"
    | "n \<notin> {0x5C, 0x22, 8, 12, 10, 13, 9}" "\<not> (32 \<le> n \<and> n \<le> 126)" "n < 65536"
    | "65536 \<le> n"
    by force
  then show ?thesis
  proof cases
    case 8
    let ?c = "char_of n :: char"
    have oc: "(of_char ?c :: nat) = n" using 8 by simp
    have "(of_char ?c :: nat) \<noteq> of_char (CHR 0x22)" "(of_char ?c :: nat) \<noteq> of_char (CHR 0x5C)"
      unfolding oc using 8 by simp_all
    then have "?c \<noteq> CHR 0x22" "?c \<noteq> CHR 0x5C" by (metis, metis)
    then have "scanstring (?c # t) = Some (of_char ?c # s, rest)"
      using scanstring_plain[of ?c t s rest] oc 8 assms(2) by (simp del: scanstring.simps)
    moreover have "escape_cp n = [?c]" using 8 by (simp add: escape_cp_def)
    ultimately show ?thesis unfolding oc by (simp del: scanstring.simps)
  next
    case 9
    have "\<not> (0xD800 \<le> n \<and> n \<le> 0xDBFF)" using assms(1) by (auto simp: scalar_def)
    from scanstring_u_escape[OF 9(3) this assms(2)]
    have "scanstring (CHR 0x5C # CHR ''u'' # hex4 n @ t) = Some (n # s, rest)" .
    moreover have "escape_cp n = CHR 0x5C # CHR ''u'' # hex4 n"
      using 9 by (auto simp: escape_cp_def)
    ultimately show ?thesis by (simp del: scanstring.simps)
  next
    case 10
    define v where "v = n - 0x10000"
    have v: "v < 0x100000" using assms(1) 10 by (simp add: scalar_def v_def)
    define h where "h = 0xD800 + (v div 1024) mod 1024"
    define l where "l = 0xDC00 + v mod 1024"
    have hb: "0xD800 \<le> h" "h \<le> 0xDBFF" by (simp_all add: h_def) 
    have lb: "0xDC00 \<le> l" "l \<le> 0xDFFF" by (simp_all add: l_def)
    have "v div 1024 mod 1024 = v div 1024" using v by simp
    then have "0x10000 + (h - 0xD800) * 1024 + (l - 0xDC00) = n"
      using 10 by (simp add: h_def l_def v_def)
    with scanstring_surrogate_pair[OF hb lb assms(2)]
    have "scanstring (CHR 0x5C # CHR ''u'' # hex4 h @ CHR 0x5C # CHR ''u'' # hex4 l @ t) = Some (n # s, rest)"
      by (simp del: scanstring.simps)
    moreover have "escape_cp n = CHR 0x5C # CHR ''u'' # hex4 h @ CHR 0x5C # CHR ''u'' # hex4 l"
      using 10 by (simp add: escape_cp_def Let_def h_def l_def v_def)
    ultimately show ?thesis by (simp del: scanstring.simps)
  qed (use assms(2) in \<open>simp_all add: escape_cp_def backslash_def\<close>)
qed

lemma scanstring_encoded:
  "list_all scalar s \<Longrightarrow> scanstring (concat (map escape_cp s) @ CHR 0x22 # rest) = Some (s, rest)"
proof (induction s)
  case Nil
  show ?case by simp
next
  case (Cons n s)
  then have "scanstring (concat (map escape_cp s) @ CHR 0x22 # rest) = Some (s, rest)" by simp
  from scanstring_escape_cp[OF _ this, of n] Cons.prems show ?case by (simp del: scanstring.simps)
qed

lemma digit_char_props:
  assumes "d < 10"
  shows "is_digit (digit_char d)" and "digit_val (digit_char d) = d"
    and "digit_char d = CHR ''0'' \<longleftrightarrow> d = 0" and "digit_char d \<noteq> CHR ''-''"
proof -
  have oc: "(of_char (digit_char d) :: nat) = 48 + d"
    using assms by (simp add: digit_char_def)
  show "is_digit (digit_char d)" using assms by (simp add: is_digit_def oc)
  show "digit_val (digit_char d) = d" by (simp add: digit_val_def oc)
  have "(of_char (digit_char d) :: nat) = of_char (CHR ''0'') \<longleftrightarrow> d = 0" unfolding oc by simp
  moreover have "digit_char 0 = CHR ''0''" by code_simp
  ultimately show "digit_char d = CHR ''0'' \<longleftrightarrow> d = 0" by metis
  have "(of_char (digit_char d) :: nat) \<noteq> of_char (CHR ''-'')" unfolding oc by simp
  then show "digit_char d \<noteq> CHR ''-''" by metis
qed

lemma digits_of_small: "n < 10 \<Longrightarrow> digits_of n = [digit_char n]"
  by (simp add: digits_of.simps)

lemma digits_of_big: "\<not> n < 10 \<Longrightarrow> digits_of n = digits_of (n div 10) @ [digit_char (n mod 10)]"
  by (subst digits_of.simps) simp

lemma digits_of_nonempty: "digits_of n \<noteq> []"
  by (cases "n < 10") (simp_all add: digits_of_small digits_of_big)

lemma digits_of_all_digits: "list_all is_digit (digits_of n)"
proof (induction n rule: digits_of.induct)
  case (1 n)
  show ?case
  proof (cases "n < 10")
    case True
    then show ?thesis by (simp add: digits_of_small digit_char_props)
  next
    case False
    then show ?thesis using 1 by (simp add: digits_of_big digit_char_props)
  qed
qed

lemma int_of_digits_snoc: "int_of_digits (ds @ [c]) = 10 * int_of_digits ds + digit_val c"
  by (simp add: int_of_digits_def)

lemma int_of_digits_digits_of: "int_of_digits (digits_of n) = n"
proof (induction n rule: digits_of.induct)
  case (1 n)
  show ?case
  proof (cases "n < 10")
    case True
    then show ?thesis by (simp add: digits_of_small int_of_digits_def digit_char_props)
  next
    case False
    then show ?thesis using 1
      by (simp add: digits_of_big int_of_digits_snoc digit_char_props)
  qed
qed

lemma hd_digits_of_zero: "hd (digits_of n) = CHR ''0'' \<longleftrightarrow> n = 0"
proof (induction n rule: digits_of.induct)
  case (1 n)
  show ?case
  proof (cases "n < 10")
    case True
    then show ?thesis by (simp add: digits_of_small digit_char_props)
  next
    case False
    then have "n div 10 \<noteq> 0" by simp
    then show ?thesis using 1 False
      by (simp add: digits_of_big digits_of_nonempty)
  qed
qed

lemma takeWhile_digits:
  assumes "list_all is_digit ds" "delim rest"
  shows "takeWhile is_digit (ds @ rest) = ds"
proof -
  have "rest = [] \<or> \<not> is_digit (hd rest)"
    using assms(2) by (auto simp: delim_def is_digit_def split: list.splits)
  then have "takeWhile is_digit rest = []" by (cases rest) auto
  then show ?thesis using assms(1)
    by (simp add: takeWhile_append list_all_iff)
qed

lemma match_number_digit_run:
  assumes "is_digit d" "list_all is_digit dr" "d = CHR ''0'' \<longrightarrow> dr = []" "delim rest"
  shows "match_number (d # dr @ rest) = Some (JInt (int (int_of_digits (d # dr))), rest)"
    and "match_number (CHR ''-'' # d # dr @ rest) = Some (JInt (- int (int_of_digits (d # dr))), rest)"
proof -
  have nm: "d \<noteq> CHR ''-''" using assms(1) by (auto simp: is_digit_def)
  have tw: "takeWhile is_digit (dr @ rest) = dr" using takeWhile_digits[OF assms(2,4)] .
  have fd: "(case rest of [] \<Rightarrow> [] | p # f \<Rightarrow> if p = CHR ''.'' then takeWhile is_digit f else []) = []"
    using assms(4) by (auto simp: delim_def split: list.splits)
  have ex: "(case rest of
               [] \<Rightarrow> []
             | e # x \<Rightarrow>
                 if e = CHR ''e'' \<or> e = CHR ''E'' then
                   let sign = (if x \<noteq> [] \<and> (hd x = CHR ''-'' \<or> hd x = CHR ''+'') then [hd x] else []);
                       xd = takeWhile is_digit (drop (length sign) x)
                   in if xd = [] then [] else e # sign @ xd
                 else []) = []"
    using assms(4) by (auto simp: delim_def split: list.splits)
  show "match_number (d # dr @ rest) = Some (JInt (int (int_of_digits (d # dr))), rest)"
  proof (cases "d = CHR ''0''")
    case True
    with assms(3) have "dr = []" by simp
    then show ?thesis using True assms(1)
      by (simp add: match_number_def Let_def fd ex)
  next
    case False
    then show ?thesis using nm assms(1)
      by (simp add: match_number_def Let_def tw fd ex)
  qed
  show "match_number (CHR ''-'' # d # dr @ rest) = Some (JInt (- int (int_of_digits (d # dr))), rest)"
  proof (cases "d = CHR ''0''")
    case True
    with assms(3) have "dr = []" by simp
    then show ?thesis using True assms(1)
      by (simp add: match_number_def Let_def fd ex)
  next
    case False
    then show ?thesis using assms(1)
      by (simp add: match_number_def Let_def tw fd ex)
  qed
qed

lemma digits_of_shape:
  obtains d dr where "digits_of n = d # dr" "is_digit d" "list_all is_digit dr"
    "d = CHR ''0'' \<longrightarrow> dr = []" "d = CHR ''0'' \<longleftrightarrow> n = 0"
proof -
  obtain d dr where ds: "digits_of n = d # dr"
    using digits_of_nonempty by (cases "digits_of n") auto
  have dd: "is_digit d" "list_all is_digit dr"
    using digits_of_all_digits[of n] ds by simp_all
  have z: "d = CHR ''0'' \<longleftrightarrow> n = 0" using hd_digits_of_zero[of n] ds by simp
  have "d = CHR ''0'' \<longrightarrow> dr = []"
    using z ds digits_of_small[of 0] by auto
  with ds dd z show ?thesis using that by blast
qed

lemma match_number_int_repr:
  assumes "delim rest"
  shows "match_number (int_repr i @ rest) = Some (JInt i, rest)"
proof -
  obtain d dr where s: "digits_of (nat \<bar>i\<bar>) = d # dr" "is_digit d" "list_all is_digit dr"
    "d = CHR ''0'' \<longrightarrow> dr = []"
    by (rule digits_of_shape)
  have v: "int_of_digits (d # dr) = nat \<bar>i\<bar>"
    using int_of_digits_digits_of[of "nat \<bar>i\<bar>"] s(1) by simp
  show ?thesis
  proof (cases "i < 0")
    case False
    then have "int_repr i = d # dr" using s(1) by (simp add: int_repr_def)
    then show ?thesis
      using match_number_digit_run(1)[OF s(2,3,4) assms] v False by simp
  next
    case True
    then have "nat (- i) = nat \<bar>i\<bar>" by simp
    then have "int_repr i = CHR ''-'' # d # dr" using s(1) True by (simp add: int_repr_def)
    then show ?thesis
      using match_number_digit_run(2)[OF s(2,3,4) assms] v True by simp
  qed
qed

lemma match_number_stages:
  assumes "mn = (if s \<noteq> [] \<and> hd s = CHR ''-'' then ''-'' else [])"
    and "drop (length mn) s = d # t"
    and "ds = (if d = CHR ''0'' then [d] else d # takeWhile is_digit t)"
    and "r1 = drop (length ds) (d # t)"
    and "fd = (case r1 of [] \<Rightarrow> [] | p # f \<Rightarrow> if p = CHR ''.'' then takeWhile is_digit f else [])"
    and "frac = (if fd = [] then [] else CHR ''.'' # fd)"
    and "r2 = drop (length frac) r1"
    and "ex = (case r2 of
                 [] \<Rightarrow> []
               | e # x \<Rightarrow>
                   if e = CHR ''e'' \<or> e = CHR ''E'' then
                     let sign = (if x \<noteq> [] \<and> (hd x = CHR ''-'' \<or> hd x = CHR ''+'') then [hd x] else []);
                         xd = takeWhile is_digit (drop (length sign) x)
                     in if xd = [] then [] else e # sign @ xd
                   else [])"
    and "r3 = drop (length ex) r2"
  shows "match_number s =
     (if \<not> is_digit d then None
      else if frac = [] \<and> ex = []
           then Some (JInt (if mn = [] then int (int_of_digits ds) else - int (int_of_digits ds)), r3)
           else Some (JFloat (mn @ ds @ frac @ ex), r3))"
  unfolding assms(9) assms(8) assms(7) assms(6) assms(5) assms(4) assms(3)
  unfolding match_number_def Let_def
  unfolding assms(1)[symmetric]
  unfolding assms(2)
  by simp

lemma takeWhile_stop: "\<not> P c \<Longrightarrow> takeWhile P (xs @ c # t) = takeWhile P xs"
  by (induction xs) simp_all

lemma drop_append_le: "n \<le> length xs \<Longrightarrow> drop n (xs @ ys) = drop n xs @ ys"
  by simp

lemma takeWhile_last: "xs = takeWhile P ys \<Longrightarrow> xs \<noteq> [] \<Longrightarrow> P (last xs)"
  by (metis last_in_set set_takeWhileD)

lemma match_number_Some_stages:
  assumes "match_number s = Some (v, r)"
  obtains mn d t ds r1 fd frac r2 ex where
    "mn = (if s \<noteq> [] \<and> hd s = CHR ''-'' then ''-'' else [])"
    "drop (length mn) s = d # t"
    "ds = (if d = CHR ''0'' then [d] else d # takeWhile is_digit t)"
    "r1 = drop (length ds) (d # t)"
    "fd = (case r1 of [] \<Rightarrow> [] | p # f \<Rightarrow> if p = CHR ''.'' then takeWhile is_digit f else [])"
    "frac = (if fd = [] then [] else CHR ''.'' # fd)"
    "r2 = drop (length frac) r1"
    "ex = (case r2 of
                 [] \<Rightarrow> []
               | e # x \<Rightarrow>
                   if e = CHR ''e'' \<or> e = CHR ''E'' then
                     let sign = (if x \<noteq> [] \<and> (hd x = CHR ''-'' \<or> hd x = CHR ''+'') then [hd x] else []);
                         xd = takeWhile is_digit (drop (length sign) x)
                     in if xd = [] then [] else e # sign @ xd
                   else [])"
    "r = drop (length ex) r2"
    "is_digit d"
    "v = (if frac = [] \<and> ex = []
          then JInt (if mn = [] then int (int_of_digits ds) else - int (int_of_digits ds))
          else JFloat (mn @ ds @ frac @ ex))"
proof -
  define mn where "mn = (if s \<noteq> [] \<and> hd s = CHR ''-'' then ''-'' else [])"
  have ne: "drop (length mn) s \<noteq> []"
  proof
    assume "drop (length mn) s = []"
    then have "match_number s = None"
      unfolding match_number_def Let_def
      unfolding mn_def[symmetric]
      by simp
    with assms show False by simp
  qed
  then obtain d t where s1: "drop (length mn) s = d # t" by (cases "drop (length mn) s") auto
  define ds where "ds = (if d = CHR ''0'' then [d] else d # takeWhile is_digit t)"
  define r1 where "r1 = drop (length ds) (d # t)"
  define fd where "fd = (case r1 of [] \<Rightarrow> [] | p # f \<Rightarrow> if p = CHR ''.'' then takeWhile is_digit f else [])"
  define frac where "frac = (if fd = [] then [] else CHR ''.'' # fd)"
  define r2 where "r2 = drop (length frac) r1"
  define ex where "ex = (case r2 of
                 [] \<Rightarrow> []
               | e # x \<Rightarrow>
                   if e = CHR ''e'' \<or> e = CHR ''E'' then
                     let sign = (if x \<noteq> [] \<and> (hd x = CHR ''-'' \<or> hd x = CHR ''+'') then [hd x] else []);
                         xd = takeWhile is_digit (drop (length sign) x)
                     in if xd = [] then [] else e # sign @ xd
                   else [])"
  define r3 where "r3 = drop (length ex) r2"
  note eq = match_number_stages[OF mn_def s1 ds_def r1_def fd_def frac_def r2_def ex_def r3_def]
  from eq assms have dg: "is_digit d" by (auto split: if_splits)
  from eq assms dg have "r = r3"
    and "v = (if frac = [] \<and> ex = []
          then JInt (if mn = [] then int (int_of_digits ds) else - int (int_of_digits ds))
          else JFloat (mn @ ds @ frac @ ex))"
    by (auto split: if_splits)
  then show thesis
    using that[OF mn_def s1 ds_def r1_def fd_def frac_def r2_def ex_def _ dg] r3_def by simp
qed

lemma match_number_append:
  assumes "match_number l = Some (v, r)"
    and "\<not> is_digit c" "c \<noteq> CHR ''.''" "c \<noteq> CHR ''e''" "c \<noteq> CHR ''E''" "c \<noteq> CHR ''+''" "c \<noteq> CHR ''-''"
  shows "match_number (l @ c # u) = Some (v, r @ c # u)"
proof -
  from assms(1) obtain mn d t ds r1 fd frac r2 ex where st:
    "mn = (if l \<noteq> [] \<and> hd l = CHR ''-'' then ''-'' else [])"
    "drop (length mn) l = d # t"
    "ds = (if d = CHR ''0'' then [d] else d # takeWhile is_digit t)"
    "r1 = drop (length ds) (d # t)"
    "fd = (case r1 of [] \<Rightarrow> [] | p # f \<Rightarrow> if p = CHR ''.'' then takeWhile is_digit f else [])"
    "frac = (if fd = [] then [] else CHR ''.'' # fd)"
    "r2 = drop (length frac) r1"
    "ex = (case r2 of
                 [] \<Rightarrow> []
               | e # x \<Rightarrow>
                   if e = CHR ''e'' \<or> e = CHR ''E'' then
                     let sign = (if x \<noteq> [] \<and> (hd x = CHR ''-'' \<or> hd x = CHR ''+'') then [hd x] else []);
                         xd = takeWhile is_digit (drop (length sign) x)
                     in if xd = [] then [] else e # sign @ xd
                   else [])"
    "r = drop (length ex) r2"
    "is_digit d"
    "v = (if frac = [] \<and> ex = []
          then JInt (if mn = [] then int (int_of_digits ds) else - int (int_of_digits ds))
          else JFloat (mn @ ds @ frac @ ex))"
    by (rule match_number_Some_stages)
  let ?u = "c # u"
  have lne: "l \<noteq> []" using st(2) by auto
  have m': "mn = (if l @ ?u \<noteq> [] \<and> hd (l @ ?u) = CHR ''-'' then ''-'' else [])"
    using st(1) lne by simp
  have lm: "length mn \<le> length l" using st(1) lne by (cases l) auto
  have s1': "drop (length mn) (l @ ?u) = d # (t @ ?u)"
    using st(2) lm by simp
  have ds': "ds = (if d = CHR ''0'' then [d] else d # takeWhile is_digit (t @ ?u))"
    using st(3) assms(2) by (simp add: takeWhile_stop)
  have lds: "length ds \<le> length (d # t)"
    using st(3) by (simp add: length_takeWhile_le)
  have r1': "r1 @ ?u = drop (length ds) (d # (t @ ?u))"
    using drop_append_le[OF lds, of ?u] st(4) by simp
  have fd': "fd = (case r1 @ ?u of [] \<Rightarrow> [] | p # f \<Rightarrow> if p = CHR ''.'' then takeWhile is_digit f else [])"
    using st(5) assms(2,3) by (cases r1) (simp_all add: takeWhile_stop)
  have lfrac: "length frac \<le> length r1"
  proof (cases r1)
    case Nil
    then show ?thesis using st(5,6) by simp
  next
    case (Cons p f)
    then show ?thesis using st(5,6) by (auto simp: length_takeWhile_le split: if_splits)
  qed
  have r2': "r2 @ ?u = drop (length frac) (r1 @ ?u)"
    using st(7) lfrac by simp
  have ex': "ex = (case r2 @ ?u of
                 [] \<Rightarrow> []
               | e # x \<Rightarrow>
                   if e = CHR ''e'' \<or> e = CHR ''E'' then
                     let sign = (if x \<noteq> [] \<and> (hd x = CHR ''-'' \<or> hd x = CHR ''+'') then [hd x] else []);
                         xd = takeWhile is_digit (drop (length sign) x)
                     in if xd = [] then [] else e # sign @ xd
                   else [])"
  proof (cases r2)
    case Nil
    then show ?thesis using st(8) assms(4,5) by simp
  next
    case (Cons e x)
    show ?thesis
    proof (cases x)
      case Nil
      then show ?thesis using st(8) Cons assms(2,6,7) by (simp add: Let_def)
    next
      case (Cons y ys)
      then show ?thesis
        using st(8) \<open>r2 = e # x\<close> assms(2) by (simp add: Let_def takeWhile_stop)
    qed
  qed
  have lex: "length ex \<le> length r2"
  proof (cases r2)
    case Nil
    then show ?thesis using st(8) by simp
  next
    case (Cons e x)
    have "length (takeWhile is_digit (drop k x)) + k \<le> length x \<or> takeWhile is_digit (drop k x) = []" for k
      using length_takeWhile_le[of is_digit "drop k x"] by (cases "k \<le> length x") auto
    from this[of 0] this[of 1] show ?thesis
      using st(8) Cons by (auto simp: Let_def split: if_splits)
  qed
  have r3': "r @ ?u = drop (length ex) (r2 @ ?u)"
    using st(9) lex by simp
  from match_number_stages[OF m' s1' ds' r1' fd' st(6) r2' ex' r3'] st(10,11)
  show ?thesis by simp
qed

lemma float_text_shape:
  assumes "match_number l = Some (JFloat l, r)"
  shows "l \<noteq> []" and "is_digit (hd l) \<or> hd l = CHR ''-''" and "is_digit (last l)"
proof -
  from assms obtain mn d t ds r1 fd frac r2 ex where st:
    "mn = (if l \<noteq> [] \<and> hd l = CHR ''-'' then ''-'' else [])"
    "drop (length mn) l = d # t"
    "ds = (if d = CHR ''0'' then [d] else d # takeWhile is_digit t)"
    "r1 = drop (length ds) (d # t)"
    "fd = (case r1 of [] \<Rightarrow> [] | p # f \<Rightarrow> if p = CHR ''.'' then takeWhile is_digit f else [])"
    "frac = (if fd = [] then [] else CHR ''.'' # fd)"
    "r2 = drop (length frac) r1"
    "ex = (case r2 of
                 [] \<Rightarrow> []
               | e # x \<Rightarrow>
                   if e = CHR ''e'' \<or> e = CHR ''E'' then
                     let sign = (if x \<noteq> [] \<and> (hd x = CHR ''-'' \<or> hd x = CHR ''+'') then [hd x] else []);
                         xd = takeWhile is_digit (drop (length sign) x)
                     in if xd = [] then [] else e # sign @ xd
                   else [])"
    "r = drop (length ex) r2"
    "is_digit d"
    "JFloat l = (if frac = [] \<and> ex = []
          then JInt (if mn = [] then int (int_of_digits ds) else - int (int_of_digits ds))
          else JFloat (mn @ ds @ frac @ ex))"
    by (rule match_number_Some_stages)
  from st(11) have fe: "\<not> (frac = [] \<and> ex = [])" and l: "l = mn @ ds @ frac @ ex"
    by (auto split: if_splits)
  show "l \<noteq> []" using st(2) by auto
  have dsh: "ds \<noteq> []" "hd ds = d" using st(3) by auto
  show "is_digit (hd l) \<or> hd l = CHR ''-''"
  proof (cases "mn = []")
    case True
    then have "hd l = d" using l dsh by simp
    then show ?thesis using st(10) by simp
  next
    case False
    then have "mn = ''-''" using st(1) by (auto split: if_splits)
    then show ?thesis using l by simp
  qed
  have fl: "frac \<noteq> [] \<Longrightarrow> is_digit (last frac)"
  proof -
    assume "frac \<noteq> []"
    then have f: "fd \<noteq> []" "frac = CHR ''.'' # fd" using st(6) by (auto split: if_splits)
    then obtain p q where "r1 = p # q" "fd = takeWhile is_digit q"
      using st(5) by (cases r1) (auto split: if_splits)
    then have "is_digit (last fd)" using f(1) takeWhile_last by blast
    then show ?thesis using f by simp
  qed
  have el: "ex \<noteq> [] \<Longrightarrow> is_digit (last ex)"
  proof -
    assume n: "ex \<noteq> []"
    then obtain e x where r2: "r2 = e # x" using st(8) by (cases r2) auto
    define sign where "sign = (if x \<noteq> [] \<and> (hd x = CHR ''-'' \<or> hd x = CHR ''+'') then [hd x] else [])"
    define xd where "xd = takeWhile is_digit (drop (length sign) x)"
    have "ex = (if e = CHR ''e'' \<or> e = CHR ''E'' then if xd = [] then [] else e # sign @ xd else [])"
      using st(8) r2 by (simp add: Let_def sign_def xd_def)
    with n have "ex = e # sign @ xd" "xd \<noteq> []" by (auto split: if_splits)
    moreover have "is_digit (last xd)" using xd_def \<open>xd \<noteq> []\<close> takeWhile_last by blast
    ultimately show ?thesis by simp
  qed
  show "is_digit (last l)"
  proof (cases "ex = []")
    case True
    with fe have "frac \<noteq> []" by simp
    then show ?thesis using fl l True by simp
  next
    case False
    then show ?thesis using el l by simp
  qed
qed

lemma float_text_scans:
  assumes "match_number l = Some (JFloat l, [])" and "delim rest"
  shows "match_number (l @ rest) = Some (JFloat l, rest)"
proof (cases rest)
  case Nil
  then show ?thesis using assms(1) by simp
next
  case (Cons c u)
  with assms(2) have "c = CHR '','' \<or> c = CHR '']'' \<or> c = CHR ''}''" by (simp add: delim_def)
  then have "\<not> is_digit c" "c \<noteq> CHR ''.''" "c \<noteq> CHR ''e''" "c \<noteq> CHR ''E''" "c \<noteq> CHR ''+''" "c \<noteq> CHR ''-''"
    by (auto simp: is_digit_def)
  from match_number_append[OF assms(1) this] show ?thesis using Cons by simp
qed

lemma match_number_not_number:
  assumes "\<not> is_digit c"
  shows "c \<noteq> CHR ''-'' \<Longrightarrow> match_number (c # cs) = None"
    and "match_number (CHR ''-'' # c # cs) = None"
  using assms by (simp_all add: match_number_def)

lemma float_text_head:
  assumes "json_ok (JFloat l)"
  obtains c cs where "l = c # cs" "is_digit c \<or> c = CHR ''-'' \<or> c = CHR ''I''"
proof -
  consider (num) "match_number l = Some (JFloat l, [])" | (inf) "l = ''Infinity''" | (ninf) "l = ''-Infinity''"
    using assms by auto
  then show thesis
  proof cases
    case num
    from float_text_shape(1,2)[OF num] show thesis using that by (cases l) auto
  next
    case inf
    then show thesis using that by simp
  next
    case ninf
    then show thesis using that by simp
  qed
qed

lemma float_text_last:
  assumes "json_ok (JFloat l)"
  shows "l \<noteq> [] \<and> \<not> is_space (last l)"
proof -
  consider (num) "match_number l = Some (JFloat l, [])" | (inf) "l = ''Infinity''" | (ninf) "l = ''-Infinity''"
    using assms by auto
  then show ?thesis
  proof cases
    case num
    from float_text_shape(1,3)[OF num] show ?thesis by (auto simp: is_digit_def is_space_def)
  next
    case inf
    then show ?thesis by (simp add: is_space_def)
  next
    case ninf
    then show ?thesis by (simp add: is_space_def)
  qed
qed

lemma float_text_scan_once:
  assumes "json_ok (JFloat l)" and "delim rest"
  shows "scan_once (Suc n) (l @ rest) = Some (JFloat l, rest)"
proof -
  consider (num) "match_number l = Some (JFloat l, [])" | (inf) "l = ''Infinity''" | (ninf) "l = ''-Infinity''"
    using assms(1) by auto
  then show ?thesis
  proof cases
    case num
    from float_text_shape(1,2)[OF num] obtain c cs where l: "l = c # cs" "is_digit c \<or> c = CHR ''-''"
      by (cases l) auto
    have c: "c \<noteq> CHR 0x22" "c \<noteq> CHR ''{''" "c \<noteq> CHR ''[''" "c \<noteq> CHR ''n''" "c \<noteq> CHR ''t''" "c \<noteq> CHR ''f''"
      using l(2) by (auto simp: is_digit_def)
    have "match_number (c # cs @ rest) = Some (JFloat l, rest)"
      using float_text_scans[OF num assms(2)] l(1) by simp
    then show ?thesis using l(1) c by simp
  next
    case inf
    have "match_number (CHR ''I'' # ''nfinity'' @ rest) = None"
      by (rule match_number_not_number(1)) (simp_all add: is_digit_def)
    then show ?thesis using inf by simp
  next
    case ninf
    have "match_number (CHR ''-'' # CHR ''I'' # ''nfinity'' @ rest) = None"
      by (rule match_number_not_number(2)) (simp add: is_digit_def)
    then show ?thesis using ninf by simp
  qed
qed

lemma skip_ws_Cons: "\<not> is_ws c \<Longrightarrow> skip_ws (c # cs) = c # cs"
  by (simp add: skip_ws_def)

lemma skip_ws_space: "skip_ws (CHR '' '' # cs) = skip_ws cs"
  by (simp add: skip_ws_def is_ws_def)

lemma int_repr_head:
  obtains c cs where "int_repr i = c # cs" "is_digit c \<or> c = CHR ''-''"
proof -
  obtain d dr where s: "digits_of (nat \<bar>i\<bar>) = d # dr" "is_digit d"
    by (rule digits_of_shape)
  show ?thesis
  proof (cases "i < 0")
    case True
    then show ?thesis using that[of "CHR ''-''"] by (simp add: int_repr_def)
  next
    case False
    then show ?thesis using that[of d dr] s by (simp add: int_repr_def)
  qed
qed

lemma json_dumps_head:
  assumes "json_ok v"
  obtains c cs where "json_dumps v = c # cs" "starts_value c"
proof (cases v)
  case JNull
  then show ?thesis using that by (simp add: starts_value_def is_ws_def is_space_def)
next
  case (JBool b)
  then show ?thesis using that by (cases b) (simp_all add: starts_value_def is_ws_def is_space_def)
next
  case (JInt i)
  obtain c cs where h: "int_repr i = c # cs" "is_digit c \<or> c = CHR ''-''" by (rule int_repr_head)
  then have "starts_value c" by (auto simp: starts_value_def is_ws_def is_space_def is_digit_def)
  with h JInt show ?thesis using that by simp
next
  case (JFloat l)
  with assms obtain c cs where h: "l = c # cs" "is_digit c \<or> c = CHR ''-'' \<or> c = CHR ''I''"
    using float_text_head by blast
  then have "starts_value c" by (auto simp: starts_value_def is_ws_def is_space_def is_digit_def)
  with h JFloat show ?thesis using that by simp
next
  case (JStr s)
  then show ?thesis using that by (simp add: encode_basestring_ascii_def starts_value_def is_ws_def is_space_def)
next
  case (JArr vs)
  then show ?thesis using that by (simp add: starts_value_def is_ws_def is_space_def)
next
  case (JObj ps)
  then show ?thesis using that by (simp add: starts_value_def is_ws_def is_space_def)
qed

lemma update_fresh: "k \<notin> fst ` set al \<Longrightarrow> AList.update k v al = al @ [(k, v)]"
  by (induction al) auto

lemma dict_fold_distinct:
  "distinct (map fst (acc @ ps)) \<Longrightarrow> foldl (\<lambda>d (k, v). AList.update k v d) acc ps = acc @ ps"
proof (induction ps arbitrary: acc)
  case Nil
  show ?case by simp
next
  case (Cons p ps)
  obtain k v where p: "p = (k, v)" by (cases p)
  have "k \<notin> fst ` set acc" using Cons.prems p by auto
  then have u: "AList.update k v acc = acc @ [(k, v)]" by (rule update_fresh)
  have "distinct (map fst ((acc @ [(k, v)]) @ ps))" using Cons.prems p by simp
  from Cons.IH[OF this] show ?case using p u by simp
qed

lemma dict_distinct: "distinct (map fst ps) \<Longrightarrow> dict ps = ps"
  using dict_fold_distinct[of "[]" ps] by (simp add: dict_def)

lemma delim_simps [simp]:
  "delim []" "delim (CHR '','' # r)" "delim (CHR '']'' # r)" "delim (CHR ''}'' # r)"
  by (simp_all add: delim_def)

lemma not_ws_punct [simp]:
  "\<not> is_ws (CHR '','')" "\<not> is_ws (CHR '']'')" "\<not> is_ws (CHR ''}'')" "\<not> is_ws (CHR '':'')"
  "\<not> is_ws (CHR 0x22)"
  by (simp_all add: is_ws_def)

lemma JSONArray_items:
  assumes "\<forall>v\<in>set vs. json_ok v \<and> scans v"
    and "vs \<noteq> []"
    and "length vs + sum_list (map need vs) \<le> m"
  shows "JSONArray m (str_join '', '' (map json_dumps vs) @ CHR '']'' # rest) = Some (vs, rest)"
  using assms
proof (induction vs arbitrary: m)
  case Nil
  then show ?case by simp
next
  case (Cons v vs)
  from Cons.prems(3) obtain m' where m: "m = Suc m'" by (cases m) auto
  have nv: "need v \<le> m'" using Cons.prems(3) m by simp
  have sv: "scans v" using Cons.prems(1) by simp
  show ?case
  proof (cases vs)
    case Nil
    have "scan_once m' (json_dumps v @ CHR '']'' # rest) = Some (v, CHR '']'' # rest)"
      using sv nv by (simp add: scans_def)
    then show ?thesis using Nil m by (simp add: skip_ws_Cons)
  next
    case (Cons w ws)
    let ?J = "str_join '', '' (map json_dumps vs) @ CHR '']'' # rest"
    have "json_ok w" using Cons.prems(1) Cons by simp
    then obtain c cs where h: "json_dumps w = c # cs" "starts_value c" by (rule json_dumps_head)
    have "\<exists>t. ?J = c # t"
      using Cons h by (cases ws) simp_all
    then obtain t where J: "?J = c # t" ..
    have sk: "skip_ws (CHR '' '' # ?J) = ?J"
      unfolding skip_ws_space unfolding J using h(2) by (simp add: skip_ws_Cons starts_value_def)
    have "scan_once m' (json_dumps v @ CHR '','' # CHR '' '' # ?J) = Some (v, CHR '','' # CHR '' '' # ?J)"
      using sv nv by (simp add: scans_def)
    moreover have "JSONArray m' ?J = Some (vs, rest)"
      using Cons.IH[of m'] Cons.prems m Cons by simp
    ultimately show ?thesis
      using Cons m sk by (simp add: skip_ws_Cons)
  qed
qed

lemma JSONObject_items:
  assumes "\<forall>p\<in>set ps. list_all scalar (fst p) \<and> json_ok (snd p) \<and> scans (snd p)"
    and "ps \<noteq> []"
    and "length ps + sum_list (map (\<lambda>(k, v). need v) ps) \<le> m"
  shows "JSONObject m
           (str_join '', '' (map (\<lambda>(k, v). encode_basestring_ascii k @ '': '' @ json_dumps v) ps)
              @ CHR ''}'' # rest)
         = Some (ps, rest)"
  using assms
proof (induction ps arbitrary: m)
  case Nil
  then show ?case by simp
next
  case (Cons p ps)
  obtain k v where p: "p = (k, v)" by (cases p)
  from Cons.prems(3) obtain m' where m: "m = Suc m'" by (cases m) auto
  have nv: "need v \<le> m'" using Cons.prems(3) m p by simp
  have kv: "list_all scalar k" "json_ok v" "scans v" using Cons.prems(1) p by simp_all
  obtain c cs where h: "json_dumps v = c # cs" "starts_value c"
    using kv(2) by (rule json_dumps_head)
  have key: "scanstring (concat (map escape_cp k) @ CHR 0x22 # t) = Some (k, t)" for t
    using kv(1) by (rule scanstring_encoded)
  have val: "delim t \<Longrightarrow> scan_once m' (skip_ws (CHR '' '' # json_dumps v @ t)) = Some (v, t)" for t
  proof -
    assume d: "delim t"
    have "skip_ws (CHR '' '' # json_dumps v @ t) = json_dumps v @ t"
      unfolding skip_ws_space using h by (simp add: skip_ws_Cons starts_value_def)
    then show ?thesis using kv(3) nv d by (simp add: scans_def)
  qed
  show ?case
  proof (cases ps)
    case Nil
    show ?thesis
      using Nil m p key val[of "CHR ''}'' # rest"]
      by (simp add: encode_basestring_ascii_def skip_ws_Cons del: scanstring.simps)
  next
    case (Cons q qs)
    let ?J = "str_join '', '' (map (\<lambda>(k, v). encode_basestring_ascii k @ '': '' @ json_dumps v) ps)
                @ CHR ''}'' # rest"
    have "\<exists>t. ?J = CHR 0x22 # t"
      using Cons by (cases q; cases qs) (simp_all add: encode_basestring_ascii_def)
    then obtain t where J: "?J = CHR 0x22 # t" ..
    have sk: "skip_ws (CHR '' '' # ?J) = ?J"
      unfolding skip_ws_space unfolding J by (simp add: skip_ws_Cons)
    have ih: "JSONObject m' ?J = Some (ps, rest)"
      using Cons.IH[of m'] Cons.prems m Cons p by simp
    show ?thesis
      using Cons m p key val[of "CHR '','' # CHR '' '' # ?J"] sk ih
      by (simp add: encode_basestring_ascii_def skip_ws_Cons del: scanstring.simps)
  qed
qed

lemma json_dumps_scans: "json_ok v \<Longrightarrow> scans v"
proof (induction v)
  case JNull
  show ?case unfolding scans_def
  proof (intro allI impI)
    fix n rest assume "need JNull \<le> n"
    then obtain n' where "n = Suc n'" by (cases n) auto
    then show "scan_once n (json_dumps JNull @ rest) = Some (JNull, rest)" by simp
  qed
next
  case (JBool b)
  show ?case unfolding scans_def
  proof (intro allI impI)
    fix n rest assume "need (JBool b) \<le> n"
    then obtain n' where "n = Suc n'" by (cases n) auto
    then show "scan_once n (json_dumps (JBool b) @ rest) = Some (JBool b, rest)" by (cases b) simp_all
  qed
next
  case (JInt i)
  show ?case unfolding scans_def
  proof (intro allI impI)
    fix n rest assume "need (JInt i) \<le> n" and d: "delim rest"
    then obtain n' where n: "n = Suc n'" by (cases n) auto
    obtain c cs where h: "int_repr i = c # cs" "is_digit c \<or> c = CHR ''-''" by (rule int_repr_head)
    have c: "c \<noteq> CHR 0x22" "c \<noteq> CHR ''{''" "c \<noteq> CHR ''[''" "c \<noteq> CHR ''n''" "c \<noteq> CHR ''t''" "c \<noteq> CHR ''f''"
      using h(2) by (auto simp: is_digit_def)
    have "match_number (c # cs @ rest) = Some (JInt i, rest)"
      using match_number_int_repr[OF d, of i] h(1) by simp
    then show "scan_once n (json_dumps (JInt i) @ rest) = Some (JInt i, rest)"
      using n h(1) c by simp
  qed
next
  case (JFloat l)
  show ?case unfolding scans_def
  proof (intro allI impI)
    fix n rest assume "need (JFloat l) \<le> n" and d: "delim rest"
    then obtain n' where n: "n = Suc n'" by (cases n) auto
    show "scan_once n (json_dumps (JFloat l) @ rest) = Some (JFloat l, rest)"
      unfolding n using float_text_scan_once[OF JFloat d] by simp
  qed
next
  case (JStr s)
  show ?case unfolding scans_def
  proof (intro allI impI)
    fix n rest assume "need (JStr s) \<le> n"
    then obtain n' where n: "n = Suc n'" by (cases n) auto
    have "scanstring (concat (map escape_cp s) @ CHR 0x22 # rest) = Some (s, rest)"
      using JStr.prems by (simp add: scanstring_encoded)
    then show "scan_once n (json_dumps (JStr s) @ rest) = Some (JStr s, rest)"
      using n by (simp add: encode_basestring_ascii_def del: scanstring.simps)
  qed
next
  case (JArr vs)
  have all: "\<forall>v\<in>set vs. json_ok v \<and> scans v"
    using JArr by (auto simp: list_all_iff)
  show ?case unfolding scans_def
  proof (intro allI impI)
    fix n rest assume nd: "need (JArr vs) \<le> n"
    then obtain n' where n: "n = Suc n'" by (cases n) auto
    show "scan_once n (json_dumps (JArr vs) @ rest) = Some (JArr vs, rest)"
    proof (cases vs)
      case Nil
      then show ?thesis using n by (simp add: skip_ws_Cons)
    next
      case (Cons w ws)
      let ?J = "str_join '', '' (map json_dumps vs) @ CHR '']'' # rest"
      have "json_ok w" using all Cons by simp
      then obtain c cs where h: "json_dumps w = c # cs" "starts_value c" by (rule json_dumps_head)
      have "\<exists>t. ?J = c # t" using Cons h by (cases ws) simp_all
      then obtain t where J: "?J = c # t" ..
      have "JSONArray n' ?J = Some (vs, rest)"
        using JSONArray_items[OF all, of n' rest] Cons nd n by simp
      then have "JSONArray n' (c # t) = Some (vs, rest)" using J by simp
      moreover have "json_dumps (JArr vs) @ rest = CHR ''['' # c # t" using J by simp
      ultimately show ?thesis
        using n h(2) by (simp add: skip_ws_Cons starts_value_def)
    qed
  qed
next
  case (JObj ps)
  have all: "\<forall>p\<in>set ps. list_all scalar (fst p) \<and> json_ok (snd p) \<and> scans (snd p)"
  proof
    fix p assume p: "p \<in> set ps"
    obtain k v where kv: "p = (k, v)" by (cases p)
    have "list_all scalar k" "json_ok v" using JObj.prems p kv by (auto simp: list_all_iff)
    moreover have "scans v" using JObj.IH[of p v] p kv \<open>json_ok v\<close> by simp
    ultimately show "list_all scalar (fst p) \<and> json_ok (snd p) \<and> scans (snd p)" using kv by simp
  qed
  have dist: "dict ps = ps" using JObj.prems by (simp add: dict_distinct)
  show ?case unfolding scans_def
  proof (intro allI impI)
    fix n rest assume nd: "need (JObj ps) \<le> n"
    then obtain n' where n: "n = Suc n'" by (cases n) auto
    show "scan_once n (json_dumps (JObj ps) @ rest) = Some (JObj ps, rest)"
    proof (cases ps)
      case Nil
      then show ?thesis using n by (simp add: skip_ws_Cons)
    next
      case (Cons q qs)
      let ?J = "str_join '', '' (map (\<lambda>(k, v). encode_basestring_ascii k @ '': '' @ json_dumps v) ps)
                  @ CHR ''}'' # rest"
      have "\<exists>t. ?J = CHR 0x22 # t"
        using Cons by (cases q; cases qs) (simp_all add: encode_basestring_ascii_def)
      then obtain t where J: "?J = CHR 0x22 # t" ..
      have "JSONObject n' ?J = Some (ps, rest)"
        using JSONObject_items[OF all, of n' rest] Cons nd n by simp
      then have "JSONObject n' (CHR 0x22 # t) = Some (ps, rest)" using J by simp
      moreover have "json_dumps (JObj ps) @ rest = CHR ''{'' # CHR 0x22 # t" using J by simp
      ultimately show ?thesis
        using n dist by (simp add: skip_ws_Cons)
    qed
  qed
qed

lemma length_str_join:
  "length (str_join sep xs) = sum_list (map length xs) + length sep * (length xs - 1)"
  by (induction sep xs rule: str_join.induct) simp_all

lemma sum_list_mono_map:
  "(\<And>x. x \<in> set xs \<Longrightarrow> f x \<le> (g x :: nat)) \<Longrightarrow> sum_list (map f xs) \<le> sum_list (map g xs)"
  by (induction xs) (simp_all add: add_mono)

lemma need_le_length: "json_ok v \<Longrightarrow> need v \<le> length (json_dumps v)"
proof (induction v)
  case (JInt i)
  obtain c cs where "int_repr i = c # cs" by (rule int_repr_head)
  then show ?case by simp
next
  case (JFloat l)
  then have "l \<noteq> []" using float_text_last by blast
  then show ?case by (cases l) simp_all
next
  case (JStr s)
  show ?case by (simp add: encode_basestring_ascii_def)
next
  case (JArr vs)
  have "sum_list (map need vs) \<le> sum_list (map (\<lambda>v. length (json_dumps v)) vs)"
    using JArr by (intro sum_list_mono_map) (auto simp: list_all_iff)
  then show ?case
    by (cases vs) (simp_all add: length_str_join comp_def)
next
  case (JObj ps)
  have "sum_list (map (\<lambda>(k, v). need v) ps)
          \<le> sum_list (map (\<lambda>(k, v). length (json_dumps v)) ps)"
  proof (intro sum_list_mono_map)
    fix p assume p: "p \<in> set ps"
    obtain k v where kv: "p = (k, v)" by (cases p)
    have "json_ok v" using JObj.prems p kv by (auto simp: list_all_iff)
    then have "need v \<le> length (json_dumps v)" using JObj.IH[of p v] p kv by simp
    then show "(case p of (k, v) \<Rightarrow> need v) \<le> (case p of (k, v) \<Rightarrow> length (json_dumps v))"
      using kv by simp
  qed
  also have "\<dots> \<le> sum_list (map (\<lambda>p. length (case p of (k, v) \<Rightarrow>
                        encode_basestring_ascii k @ '': '' @ json_dumps v)) ps)"
    by (intro sum_list_mono_map) (auto split: prod.splits)
  finally show ?case
    by (cases ps) (simp_all add: length_str_join comp_def split_def)
qed simp_all

lemma json_loads_opt_json_dumps: "json_ok v \<Longrightarrow> json_loads_opt (json_dumps v) = Some v"
proof -
  assume ok: "json_ok v"
  obtain c cs where h: "json_dumps v = c # cs" "starts_value c"
    using ok by (rule json_dumps_head)
  have sk: "skip_ws (json_dumps v) = json_dumps v"
    unfolding h(1) using h(2) by (simp add: skip_ws_Cons starts_value_def)
  have "need v \<le> 2 * length (json_dumps v) + 2"
    using need_le_length[OF ok] by simp
  moreover have "delim []" by (simp add: delim_def)
  ultimately have "scan_once (2 * length (json_dumps v) + 2) (json_dumps v @ []) = Some (v, [])"
    using json_dumps_scans[OF ok] unfolding scans_def by blast
  then have "scan_once (2 * length (json_dumps v) + 2) (skip_ws (json_dumps v)) = Some (v, [])"
    unfolding sk by (simp only: append_Nil2)
  moreover have "skip_ws [] = []" by (simp add: skip_ws_def)
  ultimately show ?thesis
    by (simp add: json_loads_opt_def del: scan_once.simps)
qed


lemma last_digits_of: "is_digit (last (digits_of n))"
  by (cases "n < 10") (simp_all add: digits_of_small digits_of_big digit_char_props)

lemma json_dumps_last:
  assumes "json_ok v"
  shows "json_dumps v \<noteq> [] \<and> \<not> is_space (last (json_dumps v))"
proof (cases v)
  case JNull
  then show ?thesis by (simp add: is_space_def)
next
  case (JBool b)
  then show ?thesis by (cases b) (simp_all add: is_space_def)
next
  case (JInt i)
  have "is_digit (last (int_repr i))"
    using last_digits_of digits_of_nonempty by (simp add: int_repr_def)
  moreover have "int_repr i \<noteq> []" using digits_of_nonempty by (simp add: int_repr_def)
  ultimately show ?thesis using JInt by (auto simp: is_digit_def is_space_def)
next
  case (JFloat l)
  with assms show ?thesis using float_text_last by simp
next
  case (JStr s)
  then show ?thesis by (simp add: encode_basestring_ascii_def is_space_def)
next
  case (JArr vs)
  then show ?thesis by (simp add: is_space_def)
next
  case (JObj ps)
  then show ?thesis by (simp add: is_space_def)
qed

lemma strip_line:
  assumes "s \<noteq> []" "\<not> is_space (hd s)" "\<not> is_space (last s)"
  shows "strip (s @ ''\<newline>'') = s"
proof -
  have a: "dropWhile is_space (s @ ''\<newline>'') = s @ ''\<newline>''"
    using assms(1,2) by (cases s) simp_all
  have "rev s \<noteq> []" "\<not> is_space (hd (rev s))"
    using assms(1,3) by (simp_all add: hd_rev)
  then have b: "dropWhile is_space (rev s) = rev s" by (cases "rev s") simp_all
  have "is_space (CHR 0x0A)" by (simp add: is_space_def)
  then show ?thesis by (simp add: strip_def a b)
qed

lemma strip_json_dumps_line:
  assumes "json_ok v"
  shows "strip (json_dumps v @ ''\<newline>'') = json_dumps v"
proof -
  obtain c cs where h: "json_dumps v = c # cs" "starts_value c"
    using assms by (rule json_dumps_head)
  then have "\<not> is_space (hd (json_dumps v))" by (simp add: starts_value_def)
  then show ?thesis using json_dumps_last[OF assms] by (intro strip_line) simp_all
qed

lemma json_loads_json_dumps: "json_ok v \<Longrightarrow> json_loads (json_dumps v) = Inr v"
  by (simp add: json_loads_def json_loads_opt_json_dumps)

section \<open>The agent and the handler\<close>

lemma dirs_kept_refl [simp]: "dirs_kept s s"
  by (simp add: dirs_kept_def)

lemma dirs_kept_trans: "dirs_kept s t \<Longrightarrow> dirs_kept t u \<Longrightarrow> dirs_kept s u"
  by (simp add: dirs_kept_def)

lemma dirs_kept_files_eq: "files t = files s \<Longrightarrow> dirs_kept s t"
  by (simp add: dirs_kept_def)

lemma dirs_kept_write_file: "dirs_kept s (write_file p c s)"
  by (simp add: dirs_kept_def write_file_def)

lemma dirs_kept_fold_write_file: "dirs_kept s (fold (\<lambda>(p, c). write_file p c) xs s)"
proof (induction xs arbitrary: s)
  case Nil
  show ?case by simp
next
  case (Cons x xs)
  obtain p c where x: "x = (p, c)" by (cases x)
  have "dirs_kept s (write_file p c s)" by (rule dirs_kept_write_file)
  moreover have "dirs_kept (write_file p c s) (fold (\<lambda>(p, c). write_file p c) xs (write_file p c s))"
    by (rule Cons.IH)
  ultimately show ?case using x by (simp add: dirs_kept_trans)
qed

lemma dirs_kept_script_effects: "dirs_kept s (script_effects r s)"
proof -
  let ?s2 = "stream_write (sys_stderr (stream_write (sys_stdout s) (printed r) s)) (warned r)
               (stream_write (sys_stdout s) (printed r) s)"
  let ?s3 = "fold (\<lambda>(p, content). write_file p content) (created r) ?s2"
  have a: "dirs_kept s ?s2" by (simp add: dirs_kept_files_eq)
  have b: "dirs_kept ?s2 ?s3" by (rule dirs_kept_fold_write_file)
  have c: "dirs_kept s ?s3" using a b by (rule dirs_kept_trans)
  have d: "os_chdir d ?s3 = Inr t \<Longrightarrow> dirs_kept s t" for d t
    using c by (auto dest!: os_chdir_Inr simp: dirs_kept_def)
  let ?s4 = "case moved_to r of None \<Rightarrow> ?s3
             | Some d \<Rightarrow> (case os_chdir d ?s3 of Inr s' \<Rightarrow> s' | Inl _ \<Rightarrow> ?s3)"
  have "dirs_kept s ?s4"
    using c d by (auto split: option.splits sum.splits)
  then show ?thesis
    by (auto simp: script_effects_def Let_def dirs_kept_def split: option.splits)
qed

lemma sys_write_files: "sys_write obj t s = Inr s' \<Longrightarrow> files s' = files s"
  by (auto simp: sys_write_def split: if_splits)

lemma execute_python_code_files:
  "files (snd (execute_python_code w code s))
     = files (script_effects (exec_script w code (with_fresh_streams s)) (with_fresh_streams s))"
proof -
  let ?r = "exec_script w code (with_fresh_streams s)"
  let ?s2 = "script_effects ?r (with_fresh_streams s)"
  define h where "h =
            (case raised ?r of
               None \<Rightarrow> (None, ?s2)
             | Some e \<Rightarrow>
                 if is_Exception (cls e)
                 then (case sys_write (sys_stderr ?s2) (format_exc ?r) ?s2 of
                         Inl e' \<Rightarrow> (Some e', ?s2)
                       | Inr s' \<Rightarrow> (None, s'))
                 else (Some e, ?s2))"
  obtain pending s3 where h: "h = (pending, s3)" by (cases h)
  have f: "files s3 = files ?s2"
    using h unfolding h_def
    by (auto split: option.splits if_splits sum.splits dest: sys_write_files)
  have "files (snd (execute_python_code w code s)) = files s3"
    unfolding execute_python_code_def Let_def h_def[symmetric] h
    by (simp split: sum.splits option.splits)
  with f show ?thesis by simp
qed

lemma dirs_kept_execute_python_code: "dirs_kept s (snd (execute_python_code w code s))"
proof -
  let ?r = "exec_script w code (with_fresh_streams s)"
  have "dirs_kept (with_fresh_streams s) (script_effects ?r (with_fresh_streams s))"
    by (rule dirs_kept_script_effects)
  then show ?thesis
    by (simp add: dirs_kept_def execute_python_code_files)
qed

lemma dirs_kept_run_try: "dirs_kept s (snd (run_try w question fs s))"
proof -
  have "execute_python_code w code s = (x, t) \<Longrightarrow> dirs_kept s t" for code x t
    using dirs_kept_execute_python_code[of s w code] by simp
  then show ?thesis
    by (auto simp: run_try_def split: sum.splits prod.splits)
qed

lemma os_path_join_absolute: "p \<noteq> [] \<Longrightarrow> hd p = CHR ''/'' \<Longrightarrow> os_path_join a p = p"
  by (simp add: os_path_join_def)

lemma os_chdir_back:
  assumes "wf_proc s" "dirs_kept s t"
  shows "os_chdir (cwd s) t = Inr (t\<lparr>cwd := cwd s\<rparr>)"
proof -
  have "abspath t (cwd s) = cwd s"
    using assms(1) by (simp add: abspath_def wf_proc_def os_path_join_absolute)
  moreover have "files t (cwd s) = Some Dir"
    using assms by (simp add: wf_proc_def dirs_kept_def)
  ultimately show ?thesis by (simp add: os_chdir_def)
qed

lemma run_after_chdir:
  assumes "wf_proc s" "os_chdir (work_dir self) s = Inr s1"
  shows "run self w question fs s =
           (fst (run_try w question fs s1), (snd (run_try w question fs s1))\<lparr>cwd := cwd s\<rparr>)"
proof -
  have "files s1 = files s" using assms(2) by (auto dest!: os_chdir_Inr)
  then have "dirs_kept s s1" by (rule dirs_kept_files_eq)
  then have "dirs_kept s (snd (run_try w question fs s1))"
    using dirs_kept_run_try dirs_kept_trans by blast
  from os_chdir_back[OF assms(1) this]
  have "os_chdir (cwd s) (snd (run_try w question fs s1))
          = Inr ((snd (run_try w question fs s1))\<lparr>cwd := cwd s\<rparr>)" .
  moreover obtain out t where rt: "run_try w question fs s1 = (out, t)"
    by (cases "run_try w question fs s1")
  ultimately show ?thesis
    using assms(2) by (simp add: run_def)
qed

lemma run_chdir_failed: "os_chdir (work_dir self) s = Inl e \<Longrightarrow> run self w question fs s = (Inl e, s)"
  by (simp add: run_def)

lemma run_cwd: "wf_proc s \<Longrightarrow> cwd (snd (run self w question fs s)) = cwd s"
  by (cases "os_chdir (work_dir self) s") (simp_all add: run_chdir_failed run_after_chdir)

lemma run_dirs_kept: "wf_proc s \<Longrightarrow> dirs_kept s (snd (run self w question fs s))"
proof (cases "os_chdir (work_dir self) s")
  case (Inl e)
  then show ?thesis by (simp add: run_chdir_failed)
next
  case (Inr s1)
  assume wf: "wf_proc s"
  have "files s1 = files s" using Inr by (auto dest!: os_chdir_Inr)
  then have "dirs_kept s s1" by (rule dirs_kept_files_eq)
  then have "dirs_kept s (snd (run_try w question fs s1))"
    using dirs_kept_run_try dirs_kept_trans by blast
  then show ?thesis using run_after_chdir[OF wf Inr] by (simp add: dirs_kept_def)
qed

lemma execute_python_code_cong:
  assumes "exec_script w' code (with_fresh_streams s) = exec_script w code (with_fresh_streams s)"
  shows "execute_python_code w' code s = execute_python_code w code s"
  using assms by (simp add: execute_python_code_def)

lemma run_try_cong:
  assumes "generate_content w' = generate_content w"
    and "\<And>code. exec_script w' code (with_fresh_streams s) = exec_script w code (with_fresh_streams s)"
  shows "run_try w' question fs s = run_try w question fs s"
  using assms(1) execute_python_code_cong[OF assms(2)]
  by (simp add: run_try_def split: sum.splits)

text \<open>
  Claim C9. Started in a well-formed process state, \<^verbatim>\<open>run\<close> first switches the working
  directory to \<open>work_dir\<close>, resolved in the directory of the caller: when that is not a
  directory the call raises the error of \<^verbatim>\<open>os.chdir\<close> and nothing has changed; otherwise
  the whole \<^verbatim>\<open>try\<close> block (the call of the service, the execution of the script, the
  checks) runs in the state whose working directory is that directory, the call ends as
  the block ends, and the state after the call is the one the block leaves with the
  working directory set back. So the working directory after the call is the one before
  it on every path: the call returns, it raises a timeout or retry error of the service,
  or it raises anything else. And the outcome depends on the meaning of scripts only in
  process states whose working directory is the scratch directory.
\<close>

theorem run_switches_and_restores_cwd:
  assumes "wf_proc s"
  shows "cwd (snd (run self w question fs s)) = cwd s
       \<and> (\<forall>e. os_chdir (work_dir self) s = Inl e \<longrightarrow> run self w question fs s = (Inl e, s))
       \<and> (files s (abspath s (work_dir self)) = Some Dir \<longrightarrow>
            run self w question fs s
              = (fst (run_try w question fs (s\<lparr>cwd := abspath s (work_dir self)\<rparr>)),
                 (snd (run_try w question fs (s\<lparr>cwd := abspath s (work_dir self)\<rparr>)))
                   \<lparr>cwd := cwd s\<rparr>))
       \<and> (generate_content w' = generate_content w
            \<and> (\<forall>code t. cwd t = abspath s (work_dir self) \<longrightarrow>
                   exec_script w' code t = exec_script w code t)
            \<longrightarrow> run self w' question fs s = run self w question fs s)"
proof (intro conjI allI impI)
  show "cwd (snd (run self w question fs s)) = cwd s"
    using assms by (rule run_cwd)
next
  fix e assume "os_chdir (work_dir self) s = Inl e"
  then show "run self w question fs s = (Inl e, s)" by (rule run_chdir_failed)
next
  assume "files s (abspath s (work_dir self)) = Some Dir"
  then have "os_chdir (work_dir self) s = Inr (s\<lparr>cwd := abspath s (work_dir self)\<rparr>)"
    by (simp add: os_chdir_def)
  from run_after_chdir[OF assms this]
  show "run self w question fs s
          = (fst (run_try w question fs (s\<lparr>cwd := abspath s (work_dir self)\<rparr>)),
             (snd (run_try w question fs (s\<lparr>cwd := abspath s (work_dir self)\<rparr>)))
               \<lparr>cwd := cwd s\<rparr>)" .
next
  assume a: "generate_content w' = generate_content w
            \<and> (\<forall>code t. cwd t = abspath s (work_dir self) \<longrightarrow>
                   exec_script w' code t = exec_script w code t)"
  show "run self w' question fs s = run self w question fs s"
  proof (cases "os_chdir (work_dir self) s")
    case (Inl e)
    then show ?thesis by (simp add: run_chdir_failed)
  next
    case (Inr s1)
    then have "cwd (with_fresh_streams s1) = abspath s (work_dir self)"
      by (auto dest!: os_chdir_Inr)
    then have "exec_script w' code (with_fresh_streams s1) = exec_script w code (with_fresh_streams s1)" for code
      using a by blast
    then have "run_try w' question fs s1 = run_try w question fs s1"
      using a by (intro run_try_cong) simp_all
    then show ?thesis
      by (simp add: run_after_chdir[OF assms Inr])
  qed
qed

lemma run_checks_result:
  assumes "wf_proc s"
    and "os_chdir (work_dir self) s = Inr s1"
    and "generate_content w (prompt fs question) = Inr reply"
    and "candidates reply \<noteq> []"
    and "fst (execute_python_code w (code_to_execute (resp_text reply)) s1) = Inr result"
  shows "fst (run self w question fs s) = check_result result"
proof -
  obtain x t where e: "execute_python_code w (code_to_execute (resp_text reply)) s1 = (x, t)"
    by (cases "execute_python_code w (code_to_execute (resp_text reply)) s1")
  with assms(5) have "x = Inr result" by simp
  with e assms(3,4) have "fst (run_try w question fs s1) = check_result result"
    by (simp add: run_try_def)
  then show ?thesis by (simp add: run_after_chdir[OF assms(1,2)])
qed

text \<open>
  Claim C3. When the captured standard error of the executed script contains
  \<^verbatim>\<open>Traceback\<close>, \<^verbatim>\<open>run\<close> raises an exception whose text ends with the captured standard
  error, whatever the captured standard output is: the test comes first.
\<close>

theorem run_fails_on_traceback:
  assumes "wf_proc s"
    and "os_chdir (work_dir self) s = Inr s1"
    and "generate_content w (prompt fs question) = Inr reply"
    and "candidates reply \<noteq> []"
    and "fst (execute_python_code w (code_to_execute (resp_text reply)) s1) = Inr result"
    and "sublist ''Traceback'' (stderr result)"
  shows "fst (run self w question fs s)
           = Inl (Exc Exception (''Error during Python script execution: '' @ stderr result))"
  using run_checks_result[OF assms(1-5)] assms(6) by (simp add: check_result_def)

text \<open>
  Claim C7. When the captured standard error has no \<^verbatim>\<open>Traceback\<close> and the captured
  standard output is empty once trimmed, \<^verbatim>\<open>run\<close> raises \<^verbatim>\<open>ValueError\<close>: with the captured
  standard error in its text when that is not empty, with the plain "did not print any
  output" text otherwise.
\<close>

theorem run_fails_on_empty_output:
  assumes "wf_proc s"
    and "os_chdir (work_dir self) s = Inr s1"
    and "generate_content w (prompt fs question) = Inr reply"
    and "candidates reply \<noteq> []"
    and "fst (execute_python_code w (code_to_execute (resp_text reply)) s1) = Inr result"
    and "\<not> sublist ''Traceback'' (stderr result)"
    and "strip (stdout result) = []"
  shows "fst (run self w question fs s)
           = Inl (Exc ValueError
                (if stderr result \<noteq> []
                 then ''The generated script did not print any output. Warnings: '' @ stderr result
                 else ''The generated script did not print any output.''))"
  using run_checks_result[OF assms(1-5)] assms(6,7) by (simp add: check_result_def Let_def)

lemma json_loads_empty: "json_loads [] = Inl (Exc JSONDecodeError [])"
  by (simp add: json_loads_def json_loads_opt_def skip_ws_def numeral_2_eq_2)

text \<open>
  Claim C1, as the code has it. When the captured standard error has no \<^verbatim>\<open>Traceback\<close>,
  \<^verbatim>\<open>run\<close> succeeds exactly when the whole captured standard output, trimmed, parses as
  JSON, and then returns that whole trimmed text; otherwise it raises. No line of the
  output is left out of what is parsed.
\<close>

theorem run_returns_whole_trimmed_output:
  assumes "wf_proc s"
    and "os_chdir (work_dir self) s = Inr s1"
    and "generate_content w (prompt fs question) = Inr reply"
    and "candidates reply \<noteq> []"
    and "fst (execute_python_code w (code_to_execute (resp_text reply)) s1) = Inr result"
    and "\<not> sublist ''Traceback'' (stderr result)"
  shows "(case json_loads (strip (stdout result)) of
            Inr v \<Rightarrow> fst (run self w question fs s) = Inr (strip (stdout result))
          | Inl e \<Rightarrow> (\<exists>e'. fst (run self w question fs s) = Inl e'))"
proof (cases "strip (stdout result) = []")
  case True
  then show ?thesis
    using run_checks_result[OF assms(1-5)] assms(6)
    by (simp add: check_result_def json_loads_empty)
next
  case False
  then show ?thesis
    using run_checks_result[OF assms(1-5)] assms(6)
    by (simp add: check_result_def Let_def split: sum.splits)
qed

lemma wf_proc_kept: "wf_proc s \<Longrightarrow> cwd t = cwd s \<Longrightarrow> dirs_kept s t \<Longrightarrow> wf_proc t"
  by (simp add: wf_proc_def dirs_kept_def)

lemma os_makedirs_Inr:
  assumes "os_makedirs p s = Inr s1"
  shows "cwd s1 = cwd s" and "files s1 (abspath s p) = Some Dir" and "dirs_kept s s1"
  using assms by (auto simp: os_makedirs_def Let_def dirs_kept_def split: if_splits)

lemma file_storage_save_Inr:
  assumes "file_storage_save p c s = Inr t"
  shows "cwd t = cwd s" and "dirs_kept s t"
  using assms dirs_kept_write_file[of s p c]
  by (auto simp: file_storage_save_def split: if_splits)

lemma save_uploads_frame:
  "save_uploads temp_dir items up s = (x, t) \<Longrightarrow> cwd t = cwd s \<and> dirs_kept s t"
proof (induction items arbitrary: up s)
  case Nil
  then show ?case by simp
next
  case (Cons it items)
  obtain filename content where it: "it = (filename, content)" by (cases it)
  show ?case
  proof (cases "file_storage_save (os_path_join temp_dir (os_path_basename filename)) content s")
    case (Inl e)
    with Cons.prems it show ?thesis by (simp add: Let_def)
  next
    case (Inr s')
    from file_storage_save_Inr[OF Inr] have a: "cwd s' = cwd s" "dirs_kept s s'" .
    from Cons.prems it Inr obtain up' where "save_uploads temp_dir items up' s' = (x, t)"
      by (simp add: Let_def)
    from Cons.IH[OF this] a show ?thesis by (auto intro: dirs_kept_trans)
  qed
qed

lemma handler_try_frame:
  assumes "wf_proc s" "handler_try w temp_dir parts s = (x, t)"
  shows "cwd t = cwd s \<and> dirs_kept s t"
proof -
  obtain y s1 where sv: "save_uploads temp_dir (request_items parts) [] s = (y, s1)"
    by (cases "save_uploads temp_dir (request_items parts) [] s")
  from save_uploads_frame[OF sv] have f1: "cwd s1 = cwd s" "dirs_kept s s1" by simp_all
  then have wf1: "wf_proc s1" using assms(1) wf_proc_kept by blast
  show ?thesis
  proof (cases y)
    case (Inl e)
    with assms(2) sv f1 show ?thesis by (simp add: handler_try_def)
  next
    case (Inr uploaded)
    show ?thesis
    proof (cases "read_text w (os_path_join temp_dir ''questions.txt'') s1")
      case (Inl e)
      with assms(2) sv Inr f1 show ?thesis by (simp add: handler_try_def)
    next
      case (Inr question)
      let ?r = "run \<lparr>work_dir = temp_dir\<rparr> w question uploaded s1"
      have "t = snd ?r"
        using assms(2) sv \<open>y = Inr uploaded\<close> Inr
        by (cases ?r) (auto simp: handler_try_def split: sum.splits)
      then have "cwd t = cwd s1" "dirs_kept s1 t"
        using run_cwd[OF wf1] run_dirs_kept[OF wf1] by simp_all
      with f1 show ?thesis by (auto intro: dirs_kept_trans)
    qed
  qed
qed

lemma shutil_rmtree_Dir:
  assumes "files s (abspath s p) = Some Dir"
  shows "\<exists>t. shutil_rmtree p s = Inr t \<and> files t (abspath s p) = None
           \<and> (\<forall>q. prefix (abspath s p @ ''/'') q \<longrightarrow> files t q = None)"
  using assms by (simp add: shutil_rmtree_def Let_def)

lemma abspath_cwd: "cwd t = cwd s \<Longrightarrow> abspath t p = abspath s p"
  by (simp add: abspath_def)

lemma handler_after_makedirs:
  assumes "wf_proc s"
    and "GOOGLE_API_KEY \<noteq> None" and "GOOGLE_API_KEY \<noteq> Some []"
    and "''questions.txt'' \<in> set (map fst parts)"
    and "os_makedirs (os_path_join ''temp'' request_id) s = Inr s1"
  shows "\<exists>t. shutil_rmtree (os_path_join ''temp'' request_id)
                 (snd (handler_try w (os_path_join ''temp'' request_id) parts s1)) = Inr t
            \<and> handle_analysis_request w GOOGLE_API_KEY parts request_id s
               = (respond (fst (handler_try w (os_path_join ''temp'' request_id) parts s1)), t)
            \<and> files t (abspath s (os_path_join ''temp'' request_id)) = None
            \<and> (\<forall>q. prefix (abspath s (os_path_join ''temp'' request_id) @ ''/'') q \<longrightarrow> files t q = None)"
proof -
  let ?d = "os_path_join ''temp'' request_id"
  from os_makedirs_Inr[OF assms(5)]
  have m: "cwd s1 = cwd s" "files s1 (abspath s ?d) = Some Dir" "dirs_kept s s1" .
  then have wf1: "wf_proc s1" using assms(1) wf_proc_kept by blast
  obtain x s2 where ht: "handler_try w ?d parts s1 = (x, s2)"
    by (cases "handler_try w ?d parts s1")
  from handler_try_frame[OF wf1 ht] have f: "cwd s2 = cwd s1" "dirs_kept s1 s2" by simp_all
  have ab: "abspath s2 ?d = abspath s ?d" using f(1) m(1) by (simp add: abspath_def)
  have d2: "files s2 (abspath s2 ?d) = Some Dir"
    using m(2) f(2) ab by (simp add: dirs_kept_def)
  from shutil_rmtree_Dir[OF d2] obtain t where t: "shutil_rmtree ?d s2 = Inr t"
    "files t (abspath s2 ?d) = None" "\<forall>q. prefix (abspath s2 ?d @ ''/'') q \<longrightarrow> files t q = None"
    by blast
  have ex: "os_path_exists ?d s2" using d2 by (simp add: os_path_exists_def)
  have "handle_analysis_request w GOOGLE_API_KEY parts request_id s = (respond x, t)"
    using assms(2,3,4,5) ht ex t(1) by (auto simp add: handle_analysis_request_def Let_def)
  then show ?thesis using t ht ab by simp
qed

text \<open>
  Claim C5. A request that gets as far as creating its scratch directory (the key is
  configured, the question part is there, \<^verbatim>\<open>os.makedirs\<close> succeeds) ends with the
  directory and every path under it gone, whatever happens in between: the response is
  the one \<open>respond\<close> gives for the outcome of the \<^verbatim>\<open>try\<close> block, be it the 200, the 503 of
  a timeout, the 500 of another exception, or an exception that leaves the handler, and
  the state it is returned with holds neither the directory nor anything under it.
\<close>

theorem handler_removes_scratch_directory:
  assumes "wf_proc s"
    and "GOOGLE_API_KEY \<noteq> None" and "GOOGLE_API_KEY \<noteq> Some []"
    and "''questions.txt'' \<in> set (map fst parts)"
    and "os_makedirs (os_path_join ''temp'' request_id) s = Inr s1"
  shows "files s1 (abspath s (os_path_join ''temp'' request_id)) = Some Dir
       \<and> fst (handle_analysis_request w GOOGLE_API_KEY parts request_id s)
           = respond (fst (handler_try w (os_path_join ''temp'' request_id) parts s1))
       \<and> files (snd (handle_analysis_request w GOOGLE_API_KEY parts request_id s))
            (abspath s (os_path_join ''temp'' request_id)) = None
       \<and> (\<forall>q. prefix (abspath s (os_path_join ''temp'' request_id) @ ''/'') q \<longrightarrow>
             files (snd (handle_analysis_request w GOOGLE_API_KEY parts request_id s)) q = None)"
  using handler_after_makedirs[OF assms, of w] os_makedirs_Inr(2)[OF assms(5)]
  by auto

text \<open>
  Claim C4, as the code has it. A request without the part \<^verbatim>\<open>questions.txt\<close> is answered
  with an error envelope and leaves the process state, and so the file system, as it
  was: no scratch directory is made. The status is 400 when the API key is configured;
  the key is tested first, and without it the status is 500.
\<close>

theorem handler_rejects_missing_question_file:
  assumes "''questions.txt'' \<notin> set (map fst parts)"
  shows "handle_analysis_request w GOOGLE_API_KEY parts request_id s =
           (if GOOGLE_API_KEY = None \<or> GOOGLE_API_KEY = Some []
            then (Inr \<lparr>status = 500, body = error_envelope ''API key is not configured on the server.''\<rparr>, s)
            else (Inr \<lparr>status = 400,
                       body = error_envelope
                         ([CHR 0x27] @ ''questions.txt'' @ [CHR 0x27] @ '' is a required file part.'')\<rparr>, s))"
  using assms by (simp add: handle_analysis_request_def)

lemma wf_sample_proc: "wf_proc sample_proc"
  by (simp add: wf_proc_def sample_proc_def)

lemma chdir_sample: "os_chdir (work_dir sample_agent) sample_proc = Inr (sample_proc\<lparr>cwd := ''/app/temp''\<rparr>)"
  by (simp add: os_chdir_def abspath_def os_path_join_def sample_proc_def sample_agent_def)

text \<open>
  The theorem for a script that finds its data only in the scratch directory, writes
  \<^verbatim>\<open>plot.png\<close> with a relative path and then changes the directory itself: the call
  returns the answer, the file is in the scratch directory, and the working directory
  is again the one of the caller. Started in the directory of the caller, the same
  script fails.
\<close>

theorem run_switches_and_restores_cwd_witness:
  "fst (run sample_agent
          \<lparr>generate_content = (\<lambda>_. reply_with ''print(1)''), exec_script = needs_scratch_dir,
           utf8_decode = Some\<rparr>
          ''How many rows?'' [] sample_proc) = Inr ''[1]''
   \<and> files (snd (run sample_agent
               \<lparr>generate_content = (\<lambda>_. reply_with ''print(1)''), exec_script = needs_scratch_dir,
                utf8_decode = Some\<rparr>
               ''How many rows?'' [] sample_proc)) ''/app/temp/plot.png'' = Some (File ''PNG'')
   \<and> cwd (snd (run sample_agent
               \<lparr>generate_content = (\<lambda>_. reply_with ''print(1)''), exec_script = needs_scratch_dir,
                utf8_decode = Some\<rparr>
               ''How many rows?'' [] sample_proc)) = ''/app''
   \<and> raised (needs_scratch_dir ''print(1)'' (with_fresh_streams sample_proc))
       = Some (Exc FileNotFoundError ''data.csv'')
   \<and> run sample_agent (sample_world (reply_with ''print(1)'') (script_plots))
         ''How many rows?'' [] sample_proc
     = run sample_agent
         \<lparr>generate_content = (\<lambda>_. reply_with ''print(1)''), exec_script = needs_scratch_dir,
          utf8_decode = Some\<rparr>
         ''How many rows?'' [] sample_proc"
proof -
  let ?w = "\<lparr>generate_content = (\<lambda>_. reply_with ''print(1)''), exec_script = needs_scratch_dir,
             utf8_decode = Some\<rparr>"
  let ?w' = "sample_world (reply_with ''print(1)'') (script_plots)"
  let ?s1 = "sample_proc\<lparr>cwd := ''/app/temp''\<rparr>"
  have g: "generate_content ?w' = generate_content ?w"
    by (simp add: sample_world_def)
  have a: "abspath sample_proc (work_dir sample_agent) = ''/app/temp''"
    by (simp add: abspath_def os_path_join_def sample_proc_def sample_agent_def)
  have d: "files sample_proc (abspath sample_proc (work_dir sample_agent)) = Some Dir"
    unfolding a by (simp add: sample_proc_def)
  have e: "\<forall>code t. cwd t = abspath sample_proc (work_dir sample_agent) \<longrightarrow>
             exec_script ?w' code t = exec_script ?w code t"
    unfolding a by (simp add: sample_world_def needs_scratch_dir_def)
  have c: "cwd sample_proc = ''/app''" by (simp add: sample_proc_def)
  have r1: "fst (run_try ?w ''How many rows?'' [] ?s1) = Inr ''[1]''"
    by code_simp
  have r2: "files (snd (run_try ?w ''How many rows?'' [] ?s1)) ''/app/temp/plot.png''
              = Some (File ''PNG'')"
    by code_simp
  have r3: "raised (needs_scratch_dir ''print(1)'' (with_fresh_streams sample_proc))
              = Some (Exc FileNotFoundError ''data.csv'')"
    by (simp add: needs_scratch_dir_def sample_proc_def)
  from run_switches_and_restores_cwd[OF wf_sample_proc, of sample_agent ?w "''How many rows?''" "[]" ?w']
  have "cwd (snd (run sample_agent ?w ''How many rows?'' [] sample_proc)) = cwd sample_proc"
    and "run sample_agent ?w ''How many rows?'' [] sample_proc
           = (fst (run_try ?w ''How many rows?'' [] ?s1),
              (snd (run_try ?w ''How many rows?'' [] ?s1))\<lparr>cwd := cwd sample_proc\<rparr>)"
    and "run sample_agent ?w' ''How many rows?'' [] sample_proc
           = run sample_agent ?w ''How many rows?'' [] sample_proc"
    using d g e unfolding a by blast+
  then show ?thesis using r1 r2 r3 c by simp
qed

text \<open>The theorem for a script that prints a valid JSON answer and then divides by zero.\<close>

theorem run_fails_on_traceback_witness:
  "fst (run sample_agent
          (sample_world (reply_with ''```python\<newline>print(json.dumps([1])); 1/0\<newline>```'')
             (script_raises ''[1]\<newline>'' [] (Exc (OtherException ''ZeroDivisionError'') ''division by zero'')
                ''ZeroDivisionError: division by zero\<newline>''))
          ''How many rows?'' [] sample_proc)
     = Inl (Exc Exception
         ''Error during Python script execution: Traceback (most recent call last):\<newline>ZeroDivisionError: division by zero\<newline>'')"
proof -
  let ?r = "script_raises ''[1]\<newline>'' [] (Exc (OtherException ''ZeroDivisionError'') ''division by zero'')
                ''ZeroDivisionError: division by zero\<newline>''"
  let ?t = "''```python\<newline>print(json.dumps([1])); 1/0\<newline>```''"
  let ?w = "sample_world (reply_with ?t) ?r"
  let ?reply = "\<lparr>candidates = [?t], resp_text = ?t, prompt_feedback = []\<rparr>"
  let ?res = "\<lparr>stdout = ''[1]\<newline>'',
               stderr = ''Traceback (most recent call last):\<newline>ZeroDivisionError: division by zero\<newline>''\<rparr>"
  have g: "generate_content ?w (prompt [] ''How many rows?'') = Inr ?reply"
    by (simp add: sample_world_def reply_with_def)
  have c: "candidates ?reply \<noteq> []" by simp
  have x: "fst (execute_python_code ?w (code_to_execute (resp_text ?reply)) (sample_proc\<lparr>cwd := ''/app/temp''\<rparr>)) = Inr ?res"
    by (simp add: execute_python_code_fst keeps_streams_def sample_world_def script_raises_def format_exc_def)
  have t: "sublist ''Traceback'' (stderr ?res)" by code_simp
  from run_fails_on_traceback[OF wf_sample_proc chdir_sample g c x t]
  show ?thesis by simp
qed

text \<open>
  The theorem for a script that prints white space only and a deprecation warning, and
  for one that writes nothing at all.
\<close>

theorem run_fails_on_empty_output_witness:
  "fst (run sample_agent
          (sample_world (reply_with ''import warnings'')
             (script_prints '' \<newline>'' ''DeprecationWarning: old API\<newline>''))
          ''How many rows?'' [] sample_proc)
     = Inl (Exc ValueError
         ''The generated script did not print any output. Warnings: DeprecationWarning: old API\<newline>'')
   \<and> fst (run sample_agent
          (sample_world (reply_with ''pass'') (script_prints [] []))
          ''How many rows?'' [] sample_proc)
     = Inl (Exc ValueError ''The generated script did not print any output.'')"
proof -
  let ?w1 = "sample_world (reply_with ''import warnings'')
             (script_prints '' \<newline>'' ''DeprecationWarning: old API\<newline>'')"
  let ?reply1 = "\<lparr>candidates = [''import warnings''], resp_text = ''import warnings'', prompt_feedback = []\<rparr>"
  let ?res1 = "\<lparr>stdout = '' \<newline>'', stderr = ''DeprecationWarning: old API\<newline>''\<rparr>"
  have g1: "generate_content ?w1 (prompt [] ''How many rows?'') = Inr ?reply1"
    by (simp add: sample_world_def reply_with_def)
  have c1: "candidates ?reply1 \<noteq> []" by simp
  have x1: "fst (execute_python_code ?w1 (code_to_execute (resp_text ?reply1)) (sample_proc\<lparr>cwd := ''/app/temp''\<rparr>)) = Inr ?res1"
    by (simp add: execute_python_code_fst keeps_streams_def sample_world_def script_prints_def)
  have t1: "\<not> sublist ''Traceback'' (stderr ?res1)" by code_simp
  have e1: "strip (stdout ?res1) = []" by code_simp
  let ?w2 = "sample_world (reply_with ''pass'') (script_prints [] [])"
  let ?reply2 = "\<lparr>candidates = [''pass''], resp_text = ''pass'', prompt_feedback = []\<rparr>"
  let ?res2 = "\<lparr>stdout = [], stderr = []\<rparr>"
  have g2: "generate_content ?w2 (prompt [] ''How many rows?'') = Inr ?reply2"
    by (simp add: sample_world_def reply_with_def)
  have c2: "candidates ?reply2 \<noteq> []" by simp
  have x2: "fst (execute_python_code ?w2 (code_to_execute (resp_text ?reply2)) (sample_proc\<lparr>cwd := ''/app/temp''\<rparr>)) = Inr ?res2"
    by (simp add: execute_python_code_fst keeps_streams_def sample_world_def script_prints_def)
  have t2: "\<not> sublist ''Traceback'' (stderr ?res2)" by code_simp
  have e2: "strip (stdout ?res2) = []" by code_simp
  from run_fails_on_empty_output[OF wf_sample_proc chdir_sample g1 c1 x1 t1 e1]
       run_fails_on_empty_output[OF wf_sample_proc chdir_sample g2 c2 x2 t2 e2]
  show ?thesis by simp
qed

text \<open>The theorem for a script whose JSON answer spans four printed lines.\<close>

theorem run_returns_whole_trimmed_output_witness:
  "fst (run sample_agent
          (sample_world (reply_with ''print(json.dumps([1, 2], indent=1))'')
             (script_prints ''[\<newline> 1,\<newline> 2\<newline>]\<newline>'' []))
          ''How many rows?'' [] sample_proc)
     = Inr ''[\<newline> 1,\<newline> 2\<newline>]''"
proof -
  let ?t = "''print(json.dumps([1, 2], indent=1))''"
  let ?w = "sample_world (reply_with ?t) (script_prints ''[\<newline> 1,\<newline> 2\<newline>]\<newline>'' [])"
  let ?reply = "\<lparr>candidates = [?t], resp_text = ?t, prompt_feedback = []\<rparr>"
  let ?res = "\<lparr>stdout = ''[\<newline> 1,\<newline> 2\<newline>]\<newline>'', stderr = []\<rparr>"
  have g: "generate_content ?w (prompt [] ''How many rows?'') = Inr ?reply"
    by (simp add: sample_world_def reply_with_def)
  have c: "candidates ?reply \<noteq> []" by simp
  have x: "fst (execute_python_code ?w (code_to_execute (resp_text ?reply)) (sample_proc\<lparr>cwd := ''/app/temp''\<rparr>)) = Inr ?res"
    by (simp add: execute_python_code_fst keeps_streams_def sample_world_def script_prints_def)
  have t: "\<not> sublist ''Traceback'' (stderr ?res)" by code_simp
  have s: "strip (stdout ?res) = ''[\<newline> 1,\<newline> 2\<newline>]''" by code_simp
  have j: "json_loads ''[\<newline> 1,\<newline> 2\<newline>]'' = Inr (JArr [JInt 1, JInt 2])" by code_simp
  from run_returns_whole_trimmed_output[OF wf_sample_proc chdir_sample g c x t]
  show ?thesis unfolding s j by simp
qed

text \<open>
  Claim C1 as stated fails: the script prints a progress line and then \<^verbatim>\<open>[1]\<close>. The last
  printed line is valid JSON, and \<^verbatim>\<open>run\<close> raises the decoder's error.
\<close>

theorem run_rejects_output_before_last_line:
  "json_loads ''[1]'' = Inr (JArr [JInt 1])
   \<and> map_sum cls id
         (fst (run sample_agent
                 (sample_world (reply_with ''```python\<newline>print(1)\<newline>```'')
                    (script_prints ''Loading data...\<newline>[1]\<newline>'' []))
                 ''How many rows?'' [] sample_proc))
       = Inl JSONDecodeError"
  by code_simp

text \<open>The theorem for a request with a data file only, on a server with a key.\<close>

theorem handler_rejects_missing_question_file_witness:
  "handle_analysis_request (sample_world (reply_with []) script_plots)
       (Some ''key'') [(''data.csv'', ''1,2'')] ''r1'' sample_proc
     = (Inr \<lparr>status = 400,
              body = error_envelope ([CHR 0x27] @ ''questions.txt'' @ [CHR 0x27] @ '' is a required file part.'')\<rparr>,
        sample_proc)"
  using handler_rejects_missing_question_file
          [of "[(''data.csv'', ''1,2'')]" "sample_world (reply_with []) script_plots"
              "Some ''key''" "''r1''" sample_proc]
  by simp

text \<open>
  Claim C4 as stated fails on a server without an API key: the request without
  \<^verbatim>\<open>questions.txt\<close> is answered 500, not 400.
\<close>

theorem handler_missing_question_file_without_key:
  "fst (handle_analysis_request (sample_world (reply_with []) (script_prints [] []))
          None [(''data.csv'', ''1,2'')] ''r1'' sample_proc)
     = Inr \<lparr>status = 500, body = error_envelope ''API key is not configured on the server.''\<rparr>"
  by (simp add: handle_analysis_request_def)

lemma handler_sample_run:
  "fst (handle_analysis_request (sample_world (reply_with ''print(json.dumps([1]))'') script_plots)
          (Some ''key'') [(''questions.txt'', ''How many rows?''), (''data.csv'', ''1,2'')] ''r1'' sample_proc)
     = Inr \<lparr>status = 200, body = JArr [JInt 1]\<rparr>"
  by code_simp

text \<open>
  The theorem for a request with a question and a data file, whose script writes
  \<^verbatim>\<open>plot.png\<close> into the scratch directory.
\<close>

theorem handler_removes_scratch_directory_witness:
  "files (snd (handle_analysis_request (sample_world (reply_with ''print(json.dumps([1]))'') script_plots)
          (Some ''key'') [(''questions.txt'', ''How many rows?''), (''data.csv'', ''1,2'')] ''r1'' sample_proc))
     ''/app/temp/r1'' = None
   \<and> files (snd (handle_analysis_request (sample_world (reply_with ''print(json.dumps([1]))'') script_plots)
          (Some ''key'') [(''questions.txt'', ''How many rows?''), (''data.csv'', ''1,2'')] ''r1'' sample_proc))
     ''/app/temp/r1/questions.txt'' = None
   \<and> files (snd (handle_analysis_request (sample_world (reply_with ''print(json.dumps([1]))'') script_plots)
          (Some ''key'') [(''questions.txt'', ''How many rows?''), (''data.csv'', ''1,2'')] ''r1'' sample_proc))
     ''/app/temp/r1/plot.png'' = None"
proof -
  let ?w = "sample_world (reply_with ''print(json.dumps([1]))'') script_plots"
  let ?parts = "[(''questions.txt'', ''How many rows?''), (''data.csv'', ''1,2'')]"
  have a: "abspath sample_proc (os_path_join ''temp'' ''r1'') = ''/app/temp/r1''" by code_simp
  have n1: "files sample_proc ''/app/temp/r1'' = None" by code_simp
  have n2: "\<not> list_ex (\<lambda>q. is_file (files sample_proc q)) (ancestors ''/app/temp/r1'')" by code_simp
  have "\<exists>s1. os_makedirs (os_path_join ''temp'' ''r1'') sample_proc = Inr s1"
    unfolding os_makedirs_def Let_def a using n1 n2 by simp
  then obtain s1 where mk: "os_makedirs (os_path_join ''temp'' ''r1'') sample_proc = Inr s1" ..
  have k1: "Some ''key'' \<noteq> None" and k2: "Some ''key'' \<noteq> Some []" by simp_all
  have q: "''questions.txt'' \<in> set (map fst ?parts)" by simp
  from handler_removes_scratch_directory[OF wf_sample_proc k1 k2 q mk, of ?w]
  show ?thesis unfolding a by simp
qed

section \<open>The round trip through the handler\<close>

lemma handler_try_after_read:
  assumes "save_uploads temp_dir (request_items parts) [] s1 = (Inr uploaded_files, s2)"
    and "read_text w (os_path_join temp_dir ''questions.txt'') s2 = Inr question"
  shows "fst (handler_try w temp_dir parts s1)
           = (case fst (run \<lparr>work_dir = temp_dir\<rparr> w question uploaded_files s2) of
                Inl e \<Rightarrow> Inl e
              | Inr result_json_str \<Rightarrow> json_loads result_json_str)"
  using assms
  by (cases "run \<lparr>work_dir = temp_dir\<rparr> w question uploaded_files s2")
     (simp add: handler_try_def split: sum.splits)

lemma respond_200:
  assumes "respond outcome = Inr resp" and "status resp = 200"
  shows "outcome = Inr (body resp)"
  using assms by (auto simp: respond_def split: sum.splits if_splits)

lemma json_loads_Inl: "json_loads t = Inl e \<Longrightarrow> e = Exc JSONDecodeError []"
  by (auto simp: json_loads_def split: option.splits)

lemma check_result_Inr:
  assumes "check_result result = Inr answer"
  shows "\<not> sublist ''Traceback'' (stderr result)" and "answer = strip (stdout result)"
    and "\<exists>v. json_loads answer = Inr v"
  using assms by (auto simp: check_result_def Let_def split: if_splits sum.splits)

lemma check_result_parsed:
  assumes "\<not> sublist ''Traceback'' (stderr result)" and "json_loads (strip (stdout result)) = Inr v"
  shows "check_result result = Inr (strip (stdout result))"
proof -
  have "strip (stdout result) \<noteq> []" using assms(2) json_loads_empty by auto
  then show ?thesis using assms by (simp add: check_result_def Let_def)
qed

lemma check_result_not_parsed:
  assumes "\<not> sublist ''Traceback'' (stderr result)" and "json_loads (strip (stdout result)) = Inl e"
  shows "\<exists>e'. check_result result = Inl e' \<and> is_Exception (cls e') \<and> \<not> is_timeout (cls e')"
proof (cases "strip (stdout result) = []")
  case True
  then show ?thesis using assms(1) by (simp add: check_result_def Let_def)
next
  case False
  have "e = Exc JSONDecodeError []" using assms(2) by (rule json_loads_Inl)
  then show ?thesis using assms False by (simp add: check_result_def Let_def)
qed

lemma run_try_Inr:
  assumes "fst (run_try w question fs s) = Inr answer"
  shows "\<exists>reply result. generate_content w (prompt fs question) = Inr reply
           \<and> candidates reply \<noteq> []
           \<and> fst (execute_python_code w (code_to_execute (resp_text reply)) s) = Inr result
           \<and> check_result result = Inr answer"
proof (cases "generate_content w (prompt fs question)")
  case (Inl e)
  with assms show ?thesis by (simp add: run_try_def)
next
  case (Inr reply)
  show ?thesis
  proof (cases "candidates reply = []")
    case True
    with assms Inr show ?thesis by (simp add: run_try_def)
  next
    case False
    obtain x t where e: "execute_python_code w (code_to_execute (resp_text reply)) s = (x, t)"
      by (cases "execute_python_code w (code_to_execute (resp_text reply)) s")
    show ?thesis
    proof (cases x)
      case (Inl err)
      with assms Inr False e show ?thesis by (simp add: run_try_def)
    next
      case (Inr result)
      with assms \<open>generate_content w (prompt fs question) = Inr reply\<close> False e
      have "check_result result = Inr answer" by (simp add: run_try_def)
      with \<open>generate_content w (prompt fs question) = Inr reply\<close> False e Inr
      show ?thesis by simp
    qed
  qed
qed

lemma run_Inr:
  assumes "fst (run self w question fs s) = Inr answer"
  shows "\<exists>s1. os_chdir (work_dir self) s = Inr s1 \<and> fst (run_try w question fs s1) = Inr answer"
proof (cases "os_chdir (work_dir self) s")
  case (Inl e)
  with assms show ?thesis by (simp add: run_def)
next
  case (Inr s1)
  obtain out s2 where rt: "run_try w question fs s1 = (out, s2)"
    by (cases "run_try w question fs s1")
  have "out = Inr answer"
    using assms Inr rt by (cases "os_chdir (cwd s) s2") (simp_all add: run_def)
  then show ?thesis using Inr rt by simp
qed

lemma handler_try_Inr:
  assumes "fst (handler_try w temp_dir parts s) = Inr v"
  shows "\<exists>uploaded_files s2 question answer.
           save_uploads temp_dir (request_items parts) [] s = (Inr uploaded_files, s2)
           \<and> read_text w (os_path_join temp_dir ''questions.txt'') s2 = Inr question
           \<and> fst (run \<lparr>work_dir = temp_dir\<rparr> w question uploaded_files s2) = Inr answer
           \<and> json_loads answer = Inr v"
proof -
  obtain y s2 where sv: "save_uploads temp_dir (request_items parts) [] s = (y, s2)"
    by (cases "save_uploads temp_dir (request_items parts) [] s")
  show ?thesis
  proof (cases y)
    case (Inl e)
    with assms sv show ?thesis by (simp add: handler_try_def)
  next
    case (Inr uploaded_files)
    show ?thesis
    proof (cases "read_text w (os_path_join temp_dir ''questions.txt'') s2")
      case (Inl e)
      with assms sv \<open>y = Inr uploaded_files\<close> show ?thesis by (simp add: handler_try_def)
    next
      case (Inr question)
      obtain z s3 where r: "run \<lparr>work_dir = temp_dir\<rparr> w question uploaded_files s2 = (z, s3)"
        by (cases "run \<lparr>work_dir = temp_dir\<rparr> w question uploaded_files s2")
      show ?thesis
      proof (cases z)
        case (Inl e)
        with assms sv \<open>y = Inr uploaded_files\<close> Inr r show ?thesis by (simp add: handler_try_def)
      next
        case (Inr answer)
        with assms sv \<open>y = Inr uploaded_files\<close>
          \<open>read_text w (os_path_join temp_dir ''questions.txt'') s2 = Inr question\<close> r
        have "json_loads answer = Inr v" by (simp add: handler_try_def)
        with sv \<open>y = Inr uploaded_files\<close>
          \<open>read_text w (os_path_join temp_dir ''questions.txt'') s2 = Inr question\<close> r Inr
        show ?thesis by simp
      qed
    qed
  qed
qed

lemma handler_200:
  assumes "fst (handle_analysis_request w GOOGLE_API_KEY parts request_id s) = Inr resp"
    and "status resp = 200"
  shows "\<exists>s1. os_makedirs (os_path_join ''temp'' request_id) s = Inr s1
           \<and> fst (handler_try w (os_path_join ''temp'' request_id) parts s1) = Inr (body resp)"
proof -
  let ?d = "os_path_join ''temp'' request_id"
  have k: "\<not> (GOOGLE_API_KEY = None \<or> GOOGLE_API_KEY = Some [])"
  proof
    assume "GOOGLE_API_KEY = None \<or> GOOGLE_API_KEY = Some []"
    then have "fst (handle_analysis_request w GOOGLE_API_KEY parts request_id s)
                 = Inr \<lparr>status = 500, body = error_envelope ''API key is not configured on the server.''\<rparr>"
      by (simp add: handle_analysis_request_def)
    with assms(1) have "resp = \<lparr>status = 500, body = error_envelope ''API key is not configured on the server.''\<rparr>"
      by simp
    then have "status resp = 500" by simp
    with assms(2) show False by simp
  qed
  have q: "''questions.txt'' \<in> set (map fst parts)"
  proof (rule ccontr)
    assume "''questions.txt'' \<notin> set (map fst parts)"
    then have "fst (handle_analysis_request w GOOGLE_API_KEY parts request_id s)
                 = Inr \<lparr>status = 400,
                         body = error_envelope
                           ([CHR 0x27] @ ''questions.txt'' @ [CHR 0x27] @ '' is a required file part.'')\<rparr>"
      using k by (simp add: handle_analysis_request_def)
    with assms(1) have "resp = \<lparr>status = 400,
                         body = error_envelope
                           ([CHR 0x27] @ ''questions.txt'' @ [CHR 0x27] @ '' is a required file part.'')\<rparr>"
      by simp
    then have "status resp = 400" by simp
    with assms(2) show False by simp
  qed
  show ?thesis
  proof (cases "os_makedirs ?d s")
    case (Inl e)
    with assms k q show ?thesis by (simp add: handle_analysis_request_def)
  next
    case (Inr s1)
    obtain outcome s2 where ht: "handler_try w ?d parts s1 = (outcome, s2)"
      by (cases "handler_try w ?d parts s1")
    have "respond outcome = Inr resp"
      using assms(1) k q Inr ht
      by (cases "shutil_rmtree ?d s2")
         (auto simp: handle_analysis_request_def Let_def split: if_splits)
    from respond_200[OF this assms(2)] show ?thesis using Inr ht by simp
  qed
qed

text \<open>
  Claim C6, as the code has it. The body of a response with status 200 is the value
  \<^verbatim>\<open>json.loads\<close> gives for the whole captured standard output of the script, trimmed: such
  a request has made its scratch directory, saved its parts, read the question, got a
  reply with a candidate, and run a script that returned without \<^verbatim>\<open>Traceback\<close> on its
  standard error. Conversely, for a request that gets that far on a server with a key:
  when the whole trimmed output decodes to a value, the response is 200 with that value;
  so it is 200 with \<open>X\<close> when the trimmed output is \<^verbatim>\<open>json.dumps(X)\<close>, as after a single
  \<^verbatim>\<open>print(json.dumps(X))\<close>, for a value \<open>X\<close> that the encoder and the decoder take to
  itself; and when the whole trimmed output does not decode, the response is 500. What
  the script prints before its final \<^verbatim>\<open>print\<close> is part of the text that is decoded. The
  body is the value given to \<^verbatim>\<open>jsonify\<close>.
\<close>

theorem handler_round_trip:
  "(\<forall>resp. fst (handle_analysis_request w GOOGLE_API_KEY parts request_id s) = Inr resp
           \<and> status resp = 200 \<longrightarrow>
      (\<exists>s1 s2 uploaded_files question reply result.
          os_makedirs (os_path_join ''temp'' request_id) s = Inr s1
          \<and> save_uploads (os_path_join ''temp'' request_id) (request_items parts) [] s1
               = (Inr uploaded_files, s2)
          \<and> read_text w (os_path_join (os_path_join ''temp'' request_id) ''questions.txt'') s2
               = Inr question
          \<and> generate_content w (prompt uploaded_files question) = Inr reply
          \<and> candidates reply \<noteq> []
          \<and> fst (execute_python_code w (code_to_execute (resp_text reply))
                    (s2\<lparr>cwd := abspath s (os_path_join ''temp'' request_id)\<rparr>)) = Inr result
          \<and> \<not> sublist ''Traceback'' (stderr result)
          \<and> json_loads (strip (stdout result)) = Inr (body resp)))
   \<and> (wf_proc s
        \<and> GOOGLE_API_KEY \<noteq> None \<and> GOOGLE_API_KEY \<noteq> Some []
        \<and> ''questions.txt'' \<in> set (map fst parts)
        \<and> os_makedirs (os_path_join ''temp'' request_id) s = Inr s1
        \<and> save_uploads (os_path_join ''temp'' request_id) (request_items parts) [] s1
             = (Inr uploaded_files, s2)
        \<and> read_text w (os_path_join (os_path_join ''temp'' request_id) ''questions.txt'') s2
             = Inr question
        \<and> generate_content w (prompt uploaded_files question) = Inr reply
        \<and> candidates reply \<noteq> []
        \<and> fst (execute_python_code w (code_to_execute (resp_text reply))
                  (s2\<lparr>cwd := abspath s (os_path_join ''temp'' request_id)\<rparr>)) = Inr result
        \<and> \<not> sublist ''Traceback'' (stderr result)
      \<longrightarrow>
        (\<forall>v. json_loads (strip (stdout result)) = Inr v \<longrightarrow>
              fst (handle_analysis_request w GOOGLE_API_KEY parts request_id s)
                = Inr \<lparr>status = 200, body = v\<rparr>)
        \<and> (json_ok X \<and> (strip (stdout result) = json_dumps X
                         \<or> stdout result = json_dumps X @ ''\<newline>'') \<longrightarrow>
              fst (handle_analysis_request w GOOGLE_API_KEY parts request_id s)
                = Inr \<lparr>status = 200, body = X\<rparr>)
        \<and> (\<forall>e. json_loads (strip (stdout result)) = Inl e \<longrightarrow>
              (\<exists>b. fst (handle_analysis_request w GOOGLE_API_KEY parts request_id s)
                     = Inr \<lparr>status = 500, body = b\<rparr>)))"
proof (intro conjI allI impI)
  let ?d = "os_path_join ''temp'' request_id"
  fix resp
  assume a: "fst (handle_analysis_request w GOOGLE_API_KEY parts request_id s) = Inr resp
             \<and> status resp = 200"
  then obtain s1 where mk: "os_makedirs ?d s = Inr s1"
    and ht: "fst (handler_try w ?d parts s1) = Inr (body resp)"
    using handler_200 by blast
  from handler_try_Inr[OF ht] obtain uploaded_files s2 question answer where
    sv: "save_uploads ?d (request_items parts) [] s1 = (Inr uploaded_files, s2)"
    and rd: "read_text w (os_path_join ?d ''questions.txt'') s2 = Inr question"
    and rn: "fst (run \<lparr>work_dir = ?d\<rparr> w question uploaded_files s2) = Inr answer"
    and jl: "json_loads answer = Inr (body resp)"
    by blast
  from run_Inr[OF rn] obtain s3 where cd: "os_chdir ?d s2 = Inr s3"
    and rt: "fst (run_try w question uploaded_files s3) = Inr answer"
    by auto
  have "cwd s2 = cwd s"
    using os_makedirs_Inr(1)[OF mk] save_uploads_frame[OF sv] by simp
  then have s3: "s3 = s2\<lparr>cwd := abspath s ?d\<rparr>"
    using os_chdir_Inr[OF cd] by (simp add: abspath_def)
  from run_try_Inr[OF rt] obtain reply result where
    g: "generate_content w (prompt uploaded_files question) = Inr reply"
    and c: "candidates reply \<noteq> []"
    and x: "fst (execute_python_code w (code_to_execute (resp_text reply)) s3) = Inr result"
    and chk: "check_result result = Inr answer"
    by blast
  from check_result_Inr(1,2)[OF chk] jl
  have "\<not> sublist ''Traceback'' (stderr result)"
    and "json_loads (strip (stdout result)) = Inr (body resp)" by simp_all
  with mk sv rd g c x s3
  show "\<exists>s1 s2 uploaded_files question reply result.
          os_makedirs ?d s = Inr s1
          \<and> save_uploads ?d (request_items parts) [] s1 = (Inr uploaded_files, s2)
          \<and> read_text w (os_path_join ?d ''questions.txt'') s2 = Inr question
          \<and> generate_content w (prompt uploaded_files question) = Inr reply
          \<and> candidates reply \<noteq> []
          \<and> fst (execute_python_code w (code_to_execute (resp_text reply))
                    (s2\<lparr>cwd := abspath s ?d\<rparr>)) = Inr result
          \<and> \<not> sublist ''Traceback'' (stderr result)
          \<and> json_loads (strip (stdout result)) = Inr (body resp)"
    by blast
next
  let ?d = "os_path_join ''temp'' request_id"
  let ?run = "run \<lparr>work_dir = ?d\<rparr> w question uploaded_files s2"
  let ?H = "wf_proc s
        \<and> GOOGLE_API_KEY \<noteq> None \<and> GOOGLE_API_KEY \<noteq> Some []
        \<and> ''questions.txt'' \<in> set (map fst parts)
        \<and> os_makedirs ?d s = Inr s1
        \<and> save_uploads ?d (request_items parts) [] s1 = (Inr uploaded_files, s2)
        \<and> read_text w (os_path_join ?d ''questions.txt'') s2 = Inr question
        \<and> generate_content w (prompt uploaded_files question) = Inr reply
        \<and> candidates reply \<noteq> []
        \<and> fst (execute_python_code w (code_to_execute (resp_text reply))
                  (s2\<lparr>cwd := abspath s ?d\<rparr>)) = Inr result
        \<and> \<not> sublist ''Traceback'' (stderr result)"
  have main: "fst (handle_analysis_request w GOOGLE_API_KEY parts request_id s)
                = respond (case check_result result of
                             Inl e \<Rightarrow> Inl e
                           | Inr result_json_str \<Rightarrow> json_loads result_json_str)" if h: ?H
  proof -
    from h have wf: "wf_proc s" and k: "GOOGLE_API_KEY \<noteq> None" "GOOGLE_API_KEY \<noteq> Some []"
      and q: "''questions.txt'' \<in> set (map fst parts)"
      and mk: "os_makedirs ?d s = Inr s1"
      and sv: "save_uploads ?d (request_items parts) [] s1 = (Inr uploaded_files, s2)"
      and rd: "read_text w (os_path_join ?d ''questions.txt'') s2 = Inr question"
      and g: "generate_content w (prompt uploaded_files question) = Inr reply"
      and c: "candidates reply \<noteq> []"
      and x: "fst (execute_python_code w (code_to_execute (resp_text reply))
                  (s2\<lparr>cwd := abspath s ?d\<rparr>)) = Inr result"
      by simp_all
    from os_makedirs_Inr[OF mk]
    have m: "cwd s1 = cwd s" "files s1 (abspath s ?d) = Some Dir" "dirs_kept s s1" .
    then have wf1: "wf_proc s1" using wf wf_proc_kept by blast
    from save_uploads_frame[OF sv] have f: "cwd s2 = cwd s1" "dirs_kept s1 s2" by simp_all
    then have wf2: "wf_proc s2" using wf1 wf_proc_kept by blast
    have ab: "abspath s2 ?d = abspath s ?d" using f(1) m(1) by (simp add: abspath_def)
    have "files s2 (abspath s2 ?d) = Some Dir" using m(2) f(2) ab by (simp add: dirs_kept_def)
    then have cd: "os_chdir (work_dir \<lparr>work_dir = ?d\<rparr>) s2 = Inr (s2\<lparr>cwd := abspath s ?d\<rparr>)"
      using ab by (simp add: os_chdir_def)
    have chk: "fst ?run = check_result result"
      using run_checks_result[OF wf2 cd g c x] .
    have "fst (handle_analysis_request w GOOGLE_API_KEY parts request_id s)
             = respond (fst (handler_try w ?d parts s1))"
      using handler_after_makedirs[OF wf k q mk, of w] by auto
    moreover have "fst (handler_try w ?d parts s1)
             = (case fst ?run of Inl e \<Rightarrow> Inl e | Inr result_json_str \<Rightarrow> json_loads result_json_str)"
      using handler_try_after_read[OF sv rd] .
    ultimately show ?thesis using chk by simp
  qed
  have tb: "\<not> sublist ''Traceback'' (stderr result)" if ?H using that by simp
  have parsed: "fst (handle_analysis_request w GOOGLE_API_KEY parts request_id s)
                  = Inr \<lparr>status = 200, body = v\<rparr>"
    if h: ?H and j: "json_loads (strip (stdout result)) = Inr v" for v
    using main[OF h] check_result_parsed[OF tb[OF h] j] j by (simp add: respond_def)
  {
    fix v
    assume h: ?H and j: "json_loads (strip (stdout result)) = Inr v"
    then show "fst (handle_analysis_request w GOOGLE_API_KEY parts request_id s)
                 = Inr \<lparr>status = 200, body = v\<rparr>"
      by (rule parsed)
  next
    assume h: ?H
      and o: "json_ok X \<and> (strip (stdout result) = json_dumps X
                         \<or> stdout result = json_dumps X @ ''\<newline>'')"
    then have "strip (stdout result) = json_dumps X"
      using strip_json_dumps_line[of X] by auto
    then have "json_loads (strip (stdout result)) = Inr X"
      using o json_loads_json_dumps by simp
    with h show "fst (handle_analysis_request w GOOGLE_API_KEY parts request_id s)
                   = Inr \<lparr>status = 200, body = X\<rparr>"
      by (rule parsed)
  next
    fix e
    assume h: ?H and j: "json_loads (strip (stdout result)) = Inl e"
    from check_result_not_parsed[OF tb[OF h] j] obtain e' where
      "check_result result = Inl e'" "is_Exception (cls e')" "\<not> is_timeout (cls e')" by blast
    then show "\<exists>b. fst (handle_analysis_request w GOOGLE_API_KEY parts request_id s)
                     = Inr \<lparr>status = 500, body = b\<rparr>"
      using main[OF h] by (simp add: respond_def)
  }
qed

text \<open>
  The theorem for a request with a question and a data file: a script that prints a
  nested answer with \<^verbatim>\<open>print(json.dumps(answer))\<close> is answered with that answer, and the
  answer is what the whole output decodes to; a script that runs
  \<^verbatim>\<open>print(1, end='')\<close> and then \<^verbatim>\<open>print(json.dumps(2))\<close> is answered with the number 12.
\<close>

theorem handler_round_trip_witness:
  "fst (handle_analysis_request
          (sample_world (reply_with ''print(json.dumps(answer))'')
             (script_prints (json_dumps sample_answer @ ''\<newline>'') []))
          (Some ''key'') sample_parts ''r1'' sample_proc)
     = Inr \<lparr>status = 200, body = sample_answer\<rparr>
   \<and> (\<exists>result. fst (execute_python_code
                     (sample_world (reply_with ''print(json.dumps(answer))'')
                        (script_prints (json_dumps sample_answer @ ''\<newline>'') []))
                     ''print(json.dumps(answer))''
                     ((snd (save_uploads ''temp/r1'' sample_parts []
                              (projr (os_makedirs ''temp/r1'' sample_proc))))
                        \<lparr>cwd := ''/app/temp/r1''\<rparr>)) = Inr result
                \<and> json_loads (strip (stdout result)) = Inr sample_answer)
   \<and> fst (handle_analysis_request
          (sample_world (reply_with ''print(json.dumps(answer))'') (script_prints ''12\<newline>'' []))
          (Some ''key'') sample_parts ''r1'' sample_proc)
     = Inr \<lparr>status = 200, body = JInt 12\<rparr>"
proof -
  let ?t = "''print(json.dumps(answer))''"
  let ?w = "sample_world (reply_with ?t) (script_prints (json_dumps sample_answer @ ''\<newline>'') [])"
  let ?w2 = "sample_world (reply_with ?t) (script_prints ''12\<newline>'' [])"
  let ?d = "os_path_join ''temp'' ''r1''"
  let ?reply = "\<lparr>candidates = [?t], resp_text = ?t, prompt_feedback = []\<rparr>"
  let ?res = "\<lparr>stdout = json_dumps sample_answer @ ''\<newline>'', stderr = []\<rparr>"
  let ?res2 = "\<lparr>stdout = ''12\<newline>'', stderr = []\<rparr>"
  define s1 where "s1 = projr (os_makedirs ?d sample_proc)"
  define s2 where "s2 = snd (save_uploads ?d (request_items sample_parts) [] s1)"
  have d: "?d = ''temp/r1''" by code_simp
  have ri: "request_items sample_parts = sample_parts" by code_simp
  have a: "abspath sample_proc ?d = ''/app/temp/r1''" by code_simp
  have n1: "files sample_proc ''/app/temp/r1'' = None" by code_simp
  have n2: "\<not> list_ex (\<lambda>q. is_file (files sample_proc q)) (ancestors ''/app/temp/r1'')" by code_simp
  have "\<exists>t. os_makedirs ?d sample_proc = Inr t"
    unfolding os_makedirs_def Let_def a using n1 n2 by simp
  then have mk: "os_makedirs ?d sample_proc = Inr s1" unfolding s1_def by auto
  have "fst (save_uploads ?d (request_items sample_parts) [] s1) = Inr [''data.csv'']"
    unfolding s1_def by code_simp
  then have sv: "save_uploads ?d (request_items sample_parts) [] s1 = (Inr [''data.csv''], s2)"
    unfolding s2_def by (simp add: prod_eq_iff)
  have rd: "read_text ?w (os_path_join ?d ''questions.txt'') s2 = Inr ''How many rows?''"
    unfolding s2_def s1_def by code_simp
  have rd2: "read_text ?w2 (os_path_join ?d ''questions.txt'') s2 = Inr ''How many rows?''"
    unfolding s2_def s1_def by code_simp
  have k1: "Some ''key'' \<noteq> None" and k2: "Some ''key'' \<noteq> Some []" by simp_all
  have q: "''questions.txt'' \<in> set (map fst sample_parts)" by (simp add: sample_parts_def)
  have g: "generate_content ?w (prompt [''data.csv''] ''How many rows?'') = Inr ?reply"
    by (simp add: sample_world_def reply_with_def)
  have g2: "generate_content ?w2 (prompt [''data.csv''] ''How many rows?'') = Inr ?reply"
    by (simp add: sample_world_def reply_with_def)
  have c: "candidates ?reply \<noteq> []" by simp
  have ce: "code_to_execute ?t = ?t" by code_simp
  have x: "fst (execute_python_code ?w (code_to_execute (resp_text ?reply))
                  (s2\<lparr>cwd := abspath sample_proc ?d\<rparr>)) = Inr ?res"
    by (simp add: execute_python_code_fst keeps_streams_def sample_world_def script_prints_def)
  have x2: "fst (execute_python_code ?w2 (code_to_execute (resp_text ?reply))
                  (s2\<lparr>cwd := abspath sample_proc ?d\<rparr>)) = Inr ?res2"
    by (simp add: execute_python_code_fst keeps_streams_def sample_world_def script_prints_def)
  have t: "\<not> sublist ''Traceback'' (stderr ?res)" by simp
  have t2: "\<not> sublist ''Traceback'' (stderr ?res2)" by simp
  have o: "stdout ?res = json_dumps sample_answer @ ''\<newline>''" by simp
  have fl: "match_number ''0.75'' = Some (JFloat ''0.75'', [])" by code_simp
  have ok: "json_ok sample_answer"
    by (simp add: sample_answer_def ustr_of_def scalar_def fl)
  have j2: "json_loads (strip (stdout ?res2)) = Inr (JInt 12)" by code_simp
  note rt1 = handler_round_trip[of ?w "Some ''key''" sample_parts "''r1''" sample_proc s1
                 "[''data.csv'']" s2 "''How many rows?''" ?reply ?res sample_answer]
  note rt2 = handler_round_trip[of ?w2 "Some ''key''" sample_parts "''r1''" sample_proc s1
                 "[''data.csv'']" s2 "''How many rows?''" ?reply ?res2 "JInt 12"]
  have r1: "fst (handle_analysis_request ?w (Some ''key'') sample_parts ''r1'' sample_proc)
              = Inr \<lparr>status = 200, body = sample_answer\<rparr>"
    using rt1 wf_sample_proc k1 k2 q mk sv rd g c x t o ok by blast
  have r2: "fst (handle_analysis_request ?w2 (Some ''key'') sample_parts ''r1'' sample_proc)
              = Inr \<lparr>status = 200, body = JInt 12\<rparr>"
    using rt2 wf_sample_proc k1 k2 q mk sv rd2 g2 c x2 t2 j2 by blast
  from rt1 r1 obtain s1' s2' uploaded_files question reply result where inv:
    "os_makedirs ?d sample_proc = Inr s1'"
    "save_uploads ?d (request_items sample_parts) [] s1' = (Inr uploaded_files, s2')"
    "generate_content ?w (prompt uploaded_files question) = Inr reply"
    "fst (execute_python_code ?w (code_to_execute (resp_text reply))
            (s2'\<lparr>cwd := abspath sample_proc ?d\<rparr>)) = Inr result"
    "json_loads (strip (stdout result)) = Inr sample_answer"
    by force
  have "s1' = s1" using inv(1) mk by simp
  then have "s2' = s2" using inv(2) sv by simp
  have "reply = ?reply" using inv(3) by (simp add: sample_world_def reply_with_def)
  have r3: "\<exists>result. fst (execute_python_code ?w ?t
                     ((snd (save_uploads ''temp/r1'' sample_parts []
                              (projr (os_makedirs ''temp/r1'' sample_proc))))
                        \<lparr>cwd := ''/app/temp/r1''\<rparr>)) = Inr result
                \<and> json_loads (strip (stdout result)) = Inr sample_answer"
    using inv(4,5) \<open>s2' = s2\<close> \<open>reply = ?reply\<close> ce
    unfolding s2_def s1_def a unfolding d ri by auto
  show ?thesis using r1 r2 r3 by blast
qed

text \<open>
  Claim C6 as stated fails: the final print of the script is \<^verbatim>\<open>json.dumps([3])\<close>, after a
  line of progress output, and the handler answers 500.
\<close>

theorem handler_rejects_output_before_final_print:
  "json_ok (JArr [JInt 3])
   \<and> json_dumps (JArr [JInt 3]) = ''[3]''
   \<and> (case fst (handle_analysis_request
                  (sample_world (reply_with ''print(json.dumps(answer))'')
                     (script_prints (''Rows: 3\<newline>'' @ json_dumps (JArr [JInt 3]) @ ''\<newline>'') []))
                  (Some ''key'') sample_parts ''r1'' sample_proc) of
         Inl e \<Rightarrow> None
       | Inr r \<Rightarrow> Some (status r)) = Some 500"
  by code_simp

end
